theory Spec2Isabelle
  imports Complex_Main
begin

section \<open>Data model (mlft/strategy.py)\<close>

text \<open>
  Python floats are modelled by exact reals: rounding and infinities are not represented.
  Quantities and bar prices are finite reals. The values computed from the fill price
  (cost basis, profit, fee) are of type \<open>pyfloat\<close>, a real or NaN, because the engine
  substitutes \<open>np.NaN\<close> for a price missing from its last-price table; NaN is absorbing
  for the arithmetic operations, as in IEEE 754.
\<close>

type_synonym pyfloat = "real option"

definition NaN :: pyfloat where
  "NaN = None"

definition fop :: "(real \<Rightarrow> real \<Rightarrow> real) \<Rightarrow> pyfloat \<Rightarrow> pyfloat \<Rightarrow> pyfloat" where
  "fop f a b = (case a of None \<Rightarrow> None | Some x \<Rightarrow> (case b of None \<Rightarrow> None | Some y \<Rightarrow> Some (f x y)))"

definition fadd :: "pyfloat \<Rightarrow> pyfloat \<Rightarrow> pyfloat" where
  "fadd = fop (+)"

definition fsub :: "pyfloat \<Rightarrow> pyfloat \<Rightarrow> pyfloat" where
  "fsub = fop (-)"

definition fmul :: "pyfloat \<Rightarrow> pyfloat \<Rightarrow> pyfloat" where
  "fmul = fop (*)"

text \<open>Division is only reached behind a guard that makes the divisor non-zero.\<close>

definition fdiv :: "pyfloat \<Rightarrow> pyfloat \<Rightarrow> pyfloat" where
  "fdiv = fop (/)"

type_synonym datetime = int

datatype Direction = Buy | Sell

datatype TimeInForce = IOC | GTC

datatype InstrumentID = InstrumentID (exchange: string) (symbol: string)

record InstrumentInfo =
  ins_id :: InstrumentID
  px_tick :: real
  qty_tick :: real
  multiplier :: real
  fee_per_qty :: real
  fee_per_mv :: real

text \<open>
  \<open>BarData\<close>. The fields \<open>time\<close>, \<open>last_time\<close> and \<open>hold_qty\<close> of the source carry the
  prefix \<open>bar_\<close> here, since \<open>Order\<close>, \<open>Trade\<close> and \<open>Position\<close> have fields of the same
  names.
\<close>

record BarData =
  bar_time :: datetime
  bar_last_time :: datetime
  open_px :: real
  high_px :: real
  low_px :: real
  last_px :: real
  trade_qty :: real
  trade_mv :: real
  bar_hold_qty :: real

text \<open>
  \<open>Position\<close>. The dictionary \<open>pending_qty\<close> always has exactly the two keys \<open>Buy\<close> and
  \<open>Sell\<close>, so it is a total function of the direction.
\<close>

record Position =
  instrument :: InstrumentInfo
  max_hold_qty :: real
  hold_qty :: real
  hold_mv :: pyfloat
  pending_qty :: "Direction \<Rightarrow> real"
  real_profit :: pyfloat
  fee :: pyfloat

text \<open>
  \<open>Order\<close>. Python shares one \<open>Position\<close> object between the position table and every
  order on it; the model keeps the position in the table only and the order holds its key.
  \<open>__post_init__\<close> sets \<open>pend_qty\<close> to \<open>orig_qty\<close>; \<open>exec_qty\<close> and \<open>last_time\<close> start
  at their defaults.
\<close>

record Order =
  order_id :: nat
  position :: InstrumentID
  direction :: Direction
  tif :: TimeInForce
  limit_px :: "real option"
  orig_qty :: real
  pend_qty :: real
  exec_qty :: real
  insert_time :: "datetime option"
  last_time :: "datetime option"

definition new_order ::
  "nat \<Rightarrow> InstrumentID \<Rightarrow> Direction \<Rightarrow> TimeInForce \<Rightarrow> real option \<Rightarrow> real \<Rightarrow> datetime option \<Rightarrow> Order"
where
  "new_order oid pos dir t lmt q tm =
     \<lparr>order_id = oid, position = pos, direction = dir, tif = t, limit_px = lmt,
      orig_qty = q, pend_qty = q, exec_qty = 0, insert_time = tm, last_time = None\<rparr>"

text \<open>
  \<open>Trade\<close>. The order is referenced by its index in the order log. The fields \<open>order\<close>,
  \<open>time\<close> and \<open>fee\<close> of the source carry the prefix \<open>trade_\<close>.
\<close>

record Trade =
  trade_id :: nat
  trade_order :: nat
  trade_time :: "datetime option"
  px :: pyfloat
  qty :: real
  trade_fee :: pyfloat
  profit :: pyfloat

section \<open>Engine state (mlft/backtest.py)\<close>

datatype MatchAlgorithm = NoTrade | AlwaysFilled

text \<open>\<open>_Event\<close>: the event type is a Python int, the order a reference into the order log.\<close>

record Event =
  event_type :: int
  ev_order :: nat

record Engine =
  positions :: "InstrumentID \<rightharpoonup> Position"
  orders :: "Order list"
  trades :: "Trade list"
  events :: "Event list"
  cur_tm :: "datetime option"
  cur_px :: "InstrumentID \<rightharpoonup> real"

text \<open>
  \<open>RuntimeError\<close> is the source's own raise. \<open>InvalidHandle\<close> has no counterpart in Python,
  where an event holds the order object and an order its position object: it is the value of
  the model when an index or key does not denote an object of the engine, which the
  well-formedness invariant below excludes.
\<close>

datatype error = RuntimeError | InvalidHandle

definition lookup_order :: "Engine \<Rightarrow> nat \<Rightarrow> Order option" where
  "lookup_order s oid = (if oid < length (orders s) then Some (orders s ! oid) else None)"

text \<open>One row of the instrument file, as \<open>__init__\<close> reads it.\<close>

record InstrumentRow =
  row_info :: InstrumentInfo
  row_max_hold_qty :: real

definition new_position :: "InstrumentRow \<Rightarrow> Position" where
  "new_position r =
     \<lparr>instrument = row_info r, max_hold_qty = row_max_hold_qty r, hold_qty = 0,
      hold_mv = Some 0, pending_qty = (\<lambda>d. 0), real_profit = Some 0, fee = Some 0\<rparr>"

fun load_instruments :: "InstrumentRow list \<Rightarrow> (InstrumentID \<rightharpoonup> Position) \<Rightarrow> (InstrumentID \<rightharpoonup> Position)" where
  "load_instruments [] m = m"
| "load_instruments (r # rs) m = load_instruments rs (m(ins_id (row_info r) \<mapsto> new_position r))"

definition init_engine :: "InstrumentRow list \<Rightarrow> Engine" where
  "init_engine rows =
     \<lparr>positions = load_instruments rows Map.empty, orders = [], trades = [], events = [],
      cur_tm = None, cur_px = Map.empty\<rparr>"

section \<open>Strategy commands\<close>

definition find_position :: "Engine \<Rightarrow> InstrumentID \<Rightarrow> Position option" where
  "find_position s i = positions s i"

definition submit_order ::
  "Engine \<Rightarrow> InstrumentID \<Rightarrow> Direction \<Rightarrow> real \<Rightarrow> TimeInForce \<Rightarrow> real option \<Rightarrow> nat option \<times> Engine"
where
  "submit_order s i dir q0 t lmt_px =
     (case find_position s i of
        None \<Rightarrow> (None, s)
      | Some ins_pos \<Rightarrow>
          let max_qty =
                (if dir = Buy
                 then max_hold_qty ins_pos - hold_qty ins_pos - pending_qty ins_pos dir
                 else max_hold_qty ins_pos + hold_qty ins_pos - pending_qty ins_pos dir);
              q = min q0 max_qty
          in if q \<le> 0 then (None, s)
             else
               let oid = length (orders s);
                   ord = new_order oid i dir t lmt_px q (cur_tm s);
                   ins_pos' = ins_pos\<lparr>pending_qty := (pending_qty ins_pos)(dir := pending_qty ins_pos dir + q)\<rparr>
               in (Some oid,
                   s\<lparr>orders := orders s @ [ord],
                     positions := (positions s)(i \<mapsto> ins_pos'),
                     events := events s @ [\<lparr>event_type = 0, ev_order = oid\<rparr>]\<rparr>))"

definition cancel_order :: "Engine \<Rightarrow> nat \<Rightarrow> error + (bool \<times> Engine)" where
  "cancel_order s oid =
     (case lookup_order s oid of
        None \<Rightarrow> Inl InvalidHandle
      | Some ord \<Rightarrow>
          if pend_qty ord = 0 \<or> tif ord = IOC then Inr (False, s)
          else Inr (True, s\<lparr>events := events s @ [\<lparr>event_type = 1, ev_order = oid\<rparr>]\<rparr>))"

section \<open>Event resolution (the loop body of \<open>BacktestEngine.__init__\<close>)\<close>

text \<open>The strategy callbacks that the resolution of one event invokes.\<close>

datatype Notification = OrderCancelled nat | OrderExecuted Trade

text \<open>
  Lines 120 to 139: the position after a fill of \<open>ev_qty\<close> at \<open>ev_px\<close>, with the
  quantity \<open>ev_close_qty\<close> that the fill closes and the profit \<open>ev_profit\<close> it realises.
\<close>

definition apply_fill :: "Direction \<Rightarrow> real \<Rightarrow> pyfloat \<Rightarrow> Position \<Rightarrow> Position \<times> real \<times> pyfloat" where
  "apply_fill dir ev_qty ev_px ev_pos =
     (if dir = Buy then
        (let (ev_close_qty, ev_profit, mv) =
               (if hold_qty ev_pos < 0 then
                  (let c = min (- hold_qty ev_pos) ev_qty
                   in (c,
                       fmul (fsub (fdiv (hold_mv ev_pos) (Some (hold_qty ev_pos))) ev_px) (Some c),
                       fmul (hold_mv ev_pos) (Some (1 - c / (- hold_qty ev_pos)))))
                else (0, Some 0, hold_mv ev_pos))
         in (ev_pos\<lparr>hold_qty := hold_qty ev_pos + ev_qty,
                    hold_mv := fadd mv (fmul (Some (ev_qty - ev_close_qty)) ev_px)\<rparr>,
             ev_close_qty, ev_profit))
      else
        (let (ev_close_qty, ev_profit, mv) =
               (if hold_qty ev_pos > 0 then
                  (let c = min (hold_qty ev_pos) ev_qty
                   in (c,
                       fmul (fsub ev_px (fdiv (hold_mv ev_pos) (Some (hold_qty ev_pos)))) (Some c),
                       fmul (hold_mv ev_pos) (Some (1 - c / hold_qty ev_pos))))
                else (0, Some 0, hold_mv ev_pos))
         in (ev_pos\<lparr>hold_qty := hold_qty ev_pos - ev_qty,
                    hold_mv := fsub mv (fmul (Some (ev_qty - ev_close_qty)) ev_px)\<rparr>,
             ev_close_qty, ev_profit)))"

text \<open>
  Lines 116 to 154, the \<open>AlwaysFilled\<close> branch. \<open>bar_ins\<close> is the loop variable \<open>ins_id\<close> of
  \<open>__init__\<close>: the instrument of the bar being replayed. \<open>ord\<close> is the order with
  \<open>last_time\<close> already set, \<open>ev_pos\<close> its position and \<open>ev_qty\<close> its pending quantity.
\<close>

definition fill_order :: "InstrumentID \<Rightarrow> nat \<Rightarrow> Order \<Rightarrow> Position \<Rightarrow> real \<Rightarrow> Engine \<Rightarrow> Engine \<times> Trade" where
  "fill_order bar_ins oid ord ev_pos ev_qty s =
     (let ev_px = (case cur_px s bar_ins of Some p \<Rightarrow> Some p | None \<Rightarrow> NaN);
          ord' = ord\<lparr>exec_qty := ev_qty, pend_qty := 0\<rparr>;
          pos1 = ev_pos\<lparr>pending_qty :=
                   (pending_qty ev_pos)(direction ord := pending_qty ev_pos (direction ord) - ev_qty)\<rparr>;
          (pos2, ev_close_qty, ev_profit) = apply_fill (direction ord) ev_qty ev_px pos1;
          ev_fee = fadd (Some (ev_qty * fee_per_qty (instrument pos2)))
                        (fmul (fmul (Some ev_qty) ev_px) (Some (fee_per_mv (instrument pos2))));
          trade = \<lparr>trade_id = length (trades s), trade_order = oid, trade_time = cur_tm s,
                   px = ev_px, qty = ev_qty, trade_fee = ev_fee, profit = ev_profit\<rparr>;
          pos3 = pos2\<lparr>fee := fadd (fee pos2) ev_fee, real_profit := fadd (real_profit pos2) ev_profit\<rparr>
      in (s\<lparr>orders := (orders s)[oid := ord'],
            positions := (positions s)(position ord \<mapsto> pos3),
            trades := trades s @ [trade]\<rparr>, trade))"

text \<open>
  Lines 156 to 157 and, with the same statements, lines 160 to 161: the order is cancelled.
\<close>

definition cancel_pending :: "nat \<Rightarrow> Order \<Rightarrow> Position \<Rightarrow> real \<Rightarrow> Engine \<Rightarrow> Engine" where
  "cancel_pending oid ord ev_pos ev_qty s =
     (let ord' = ord\<lparr>pend_qty := 0\<rparr>;
          pos' = ev_pos\<lparr>pending_qty :=
                   (pending_qty ev_pos)(direction ord := pending_qty ev_pos (direction ord) - ev_qty)\<rparr>
      in s\<lparr>orders := (orders s)[oid := ord'], positions := (positions s)(position ord \<mapsto> pos')\<rparr>)"

text \<open>
  Lines 108 to 164: one iteration of the loop over the queued events. The result is the new
  state and the callback to invoke, if any.
\<close>

definition process_event ::
  "MatchAlgorithm \<Rightarrow> InstrumentID \<Rightarrow> Event \<Rightarrow> Engine \<Rightarrow> error + (Engine \<times> Notification option)"
where
  "process_event match_algo bar_ins ev s =
     (case lookup_order s (ev_order ev) of
        None \<Rightarrow> Inl InvalidHandle
      | Some ord0 \<Rightarrow>
          if pend_qty ord0 \<le> 0 then Inr (s, None)
          else
            (case positions s (position ord0) of
               None \<Rightarrow> Inl InvalidHandle
             | Some ev_pos \<Rightarrow>
                 let oid = ev_order ev;
                     ord = ord0\<lparr>last_time := cur_tm s\<rparr>;
                     ev_qty = pend_qty ord0
                 in if event_type ev = 0 then
                      (if match_algo = AlwaysFilled then
                         (let (s', trade) = fill_order bar_ins oid ord ev_pos ev_qty s
                          in Inr (s', Some (OrderExecuted trade)))
                       else if tif ord = IOC then
                         Inr (cancel_pending oid ord ev_pos ev_qty s, Some (OrderCancelled oid))
                       else Inr (s\<lparr>orders := (orders s)[oid := ord]\<rparr>, None))
                    else if event_type ev = 1 then
                      Inr (cancel_pending oid ord ev_pos ev_qty s, Some (OrderCancelled oid))
                    else Inl RuntimeError))"

section \<open>The strategy and the replay loop\<close>

text \<open>
  A strategy acts on the engine through \<open>submit_order\<close> and \<open>cancel_order\<close> only. A callback
  is a function of the strategy's own state, the engine state it can inspect and the
  callback's argument; it returns the strategy's new state and the commands it issues, in
  order. Since both commands are functions of the engine state, a callback that chooses a
  later command from the result of an earlier one is of this form too.
\<close>

datatype Command =
  Submit InstrumentID Direction real TimeInForce "real option"
| Cancel nat

record 'st Strategy =
  on_start :: "'st \<Rightarrow> Engine \<Rightarrow> 'st \<times> Command list"
  on_stop :: "'st \<Rightarrow> Engine \<Rightarrow> 'st \<times> Command list"
  on_order_cancelled :: "'st \<Rightarrow> Engine \<Rightarrow> nat \<Rightarrow> 'st \<times> Command list"
  on_order_executed :: "'st \<Rightarrow> Engine \<Rightarrow> Trade \<Rightarrow> 'st \<times> Command list"
  on_bar_data :: "'st \<Rightarrow> Engine \<Rightarrow> InstrumentID \<Rightarrow> BarData \<Rightarrow> 'st \<times> Command list"

fun run_commands :: "Command list \<Rightarrow> Engine \<Rightarrow> error + Engine" where
  "run_commands [] s = Inr s"
| "run_commands (Submit i dir q t lmt # cs) s = run_commands cs (snd (submit_order s i dir q t lmt))"
| "run_commands (Cancel oid # cs) s =
     (case cancel_order s oid of Inl e \<Rightarrow> Inl e | Inr (b, s') \<Rightarrow> run_commands cs s')"

definition callback :: "'st \<times> Command list \<Rightarrow> Engine \<Rightarrow> error + ('st \<times> Engine)" where
  "callback r s = (case run_commands (snd r) s of Inl e \<Rightarrow> Inl e | Inr s' \<Rightarrow> Inr (fst r, s'))"

fun notify :: "'st Strategy \<Rightarrow> Notification option \<Rightarrow> 'st \<Rightarrow> Engine \<Rightarrow> error + ('st \<times> Engine)" where
  "notify strat None st s = Inr (st, s)"
| "notify strat (Some (OrderCancelled oid)) st s = callback (on_order_cancelled strat st s oid) s"
| "notify strat (Some (OrderExecuted trade)) st s = callback (on_order_executed strat st s trade) s"

text \<open>
  Lines 107 to 165. Python's \<open>for _ev in self._events\<close> walks the list by index and sees the
  events a callback appends during the pass, so the pass need not end: the first argument
  is fuel, and \<open>None\<close> is a pass that has not returned within it. \<open>i\<close> is the index of the
  next event.
\<close>

fun process_events ::
  "nat \<Rightarrow> MatchAlgorithm \<Rightarrow> 'st Strategy \<Rightarrow> InstrumentID \<Rightarrow> nat \<Rightarrow> 'st \<Rightarrow> Engine \<Rightarrow> (error + ('st \<times> Engine)) option"
where
  "process_events 0 match_algo strat bar_ins i st s = None"
| "process_events (Suc fuel) match_algo strat bar_ins i st s =
     (if i < length (events s) then
        (case process_event match_algo bar_ins (events s ! i) s of
           Inl e \<Rightarrow> Some (Inl e)
         | Inr (s1, note) \<Rightarrow>
             (case notify strat note st s1 of
                Inl e \<Rightarrow> Some (Inl e)
              | Inr (st', s2) \<Rightarrow> process_events fuel match_algo strat bar_ins (i + 1) st' s2))
      else Some (Inr (st, s\<lparr>events := []\<rparr>)))"

text \<open>Lines 98 to 167: one bar of the feed.\<close>

definition on_bar ::
  "nat \<Rightarrow> MatchAlgorithm \<Rightarrow> 'st Strategy \<Rightarrow> InstrumentID \<times> BarData \<Rightarrow> 'st \<Rightarrow> Engine \<Rightarrow> (error + ('st \<times> Engine)) option"
where
  "on_bar fuel match_algo strat r st s =
     (let bar_ins = fst r; bar = snd r;
          s1 = s\<lparr>cur_tm := Some (bar_last_time bar), cur_px := (cur_px s)(bar_ins \<mapsto> last_px bar)\<rparr>
      in case process_events fuel match_algo strat bar_ins 0 st s1 of
           None \<Rightarrow> None
         | Some (Inl e) \<Rightarrow> Some (Inl e)
         | Some (Inr (st1, s2)) \<Rightarrow> Some (callback (on_bar_data strat st1 s2 bar_ins bar) s2))"

fun replay ::
  "nat \<Rightarrow> MatchAlgorithm \<Rightarrow> 'st Strategy \<Rightarrow> (InstrumentID \<times> BarData) list \<Rightarrow> 'st \<Rightarrow> Engine \<Rightarrow> (error + ('st \<times> Engine)) option"
where
  "replay fuel match_algo strat [] st s = Some (Inr (st, s))"
| "replay fuel match_algo strat (r # rs) st s =
     (case on_bar fuel match_algo strat r st s of
        None \<Rightarrow> None
      | Some (Inl e) \<Rightarrow> Some (Inl e)
      | Some (Inr (st', s')) \<Rightarrow> replay fuel match_algo strat rs st' s')"

text \<open>
  Lines 95 to 168 of \<open>__init__\<close>: \<open>on_start\<close>, the bars in file order, \<open>on_stop\<close>. \<open>fuel\<close>
  bounds each resolution pass.
\<close>

definition run ::
  "nat \<Rightarrow> MatchAlgorithm \<Rightarrow> 'st Strategy \<Rightarrow> InstrumentRow list \<Rightarrow> (InstrumentID \<times> BarData) list \<Rightarrow> 'st \<Rightarrow> (error + ('st \<times> Engine)) option"
where
  "run fuel match_algo strat rows bars st0 =
     (case callback (on_start strat st0 (init_engine rows)) (init_engine rows) of
        Inl e \<Rightarrow> Some (Inl e)
      | Inr (st1, s1) \<Rightarrow>
          (case replay fuel match_algo strat bars st1 s1 of
             None \<Rightarrow> None
           | Some (Inl e) \<Rightarrow> Some (Inl e)
           | Some (Inr (st2, s2)) \<Rightarrow> Some (callback (on_stop strat st2 s2) s2)))"

section \<open>The states of a run\<close>

fun note_order :: "Notification \<Rightarrow> nat" where
  "note_order (OrderCancelled oid) = oid"
| "note_order (OrderExecuted trade) = trade_order trade"

fun note_list :: "Notification option \<Rightarrow> Notification list" where
  "note_list None = []"
| "note_list (Some n) = [n]"

text \<open>
  \<open>reachable match_algo rows s ntf\<close>: the engine, loaded from \<open>rows\<close>, can be in state \<open>s\<close>
  after it has invoked the order callbacks \<open>ntf\<close>, in this order. The rules are the steps
  of \<open>__init__\<close> and the two commands, which a strategy may issue from any callback: the
  arrival of a bar (lines 104 and 105), one iteration of the event loop for the instrument
  of a bar that has arrived, and the clearing of the queue (line 165). The rules leave the
  order of the steps open, so the relation holds of every state the loop passes through
  and of more.
\<close>

inductive reachable :: "MatchAlgorithm \<Rightarrow> InstrumentRow list \<Rightarrow> Engine \<Rightarrow> Notification list \<Rightarrow> bool"
  for match_algo :: MatchAlgorithm and rows :: "InstrumentRow list"
where
  start: "reachable match_algo rows (init_engine rows) []"
| submit: "reachable match_algo rows s ntf \<Longrightarrow>
     reachable match_algo rows (snd (submit_order s i dir q t lmt)) ntf"
| cancel: "reachable match_algo rows s ntf \<Longrightarrow> cancel_order s oid = Inr (b, s') \<Longrightarrow>
     reachable match_algo rows s' ntf"
| bar: "reachable match_algo rows s ntf \<Longrightarrow>
     reachable match_algo rows
       (s\<lparr>cur_tm := Some (bar_last_time (b::BarData)), cur_px := (cur_px s)(bar_ins \<mapsto> last_px b)\<rparr>) ntf"
| event: "reachable match_algo rows s ntf \<Longrightarrow> i < length (events s) \<Longrightarrow>
     cur_px s bar_ins = Some p \<Longrightarrow>
     process_event match_algo bar_ins (events s ! i) s = Inr (s', n) \<Longrightarrow>
     reachable match_algo rows s' (ntf @ note_list n)"
| clear: "reachable match_algo rows s ntf \<Longrightarrow> reachable match_algo rows (s\<lparr>events := []\<rparr>) ntf"

section \<open>Predicates of the properties\<close>

text \<open>
  An order of instrument \<open>k\<close> and direction \<open>d\<close> that still awaits resolution: its pending
  quantity is positive.
\<close>

definition awaiting :: "InstrumentID \<Rightarrow> Direction \<Rightarrow> Order \<Rightarrow> bool" where
  "awaiting k d ord \<longleftrightarrow> position ord = k \<and> direction ord = d \<and> 0 < pend_qty ord"

definition pending_sum :: "Engine \<Rightarrow> InstrumentID \<Rightarrow> Direction \<Rightarrow> real" where
  "pending_sum s k d = sum_list (map pend_qty (filter (awaiting k d) (orders s)))"


text \<open>
  A position whose cost basis is a number, and zero when nothing is held.
\<close>

definition flat_ok :: "Position \<Rightarrow> bool" where
  "flat_ok p \<longleftrightarrow> hold_mv p \<noteq> NaN \<and> (hold_qty p = 0 \<longrightarrow> hold_mv p = Some 0)"


text \<open>
  The quantities of the order \<open>oid\<close>, given the callbacks invoked so far: a cancelled order
  has nothing pending and nothing executed; any other order is pending in full or executed
  in full.
\<close>

definition order_ok :: "Notification list \<Rightarrow> nat \<Rightarrow> Order \<Rightarrow> bool" where
  "order_ok ntf oid ord \<longleftrightarrow>
     0 < orig_qty ord \<and>
     (if OrderCancelled oid \<in> set ntf then pend_qty ord = 0 \<and> exec_qty ord = 0
      else pend_qty ord + exec_qty ord = orig_qty ord \<and> (pend_qty ord = 0 \<or> exec_qty ord = 0))"

definition orders_ok :: "Engine \<Rightarrow> Notification list \<Rightarrow> bool" where
  "orders_ok s ntf \<longleftrightarrow>
     (\<forall>oid < length (orders s). order_ok ntf oid (orders s ! oid)) \<and>
     (\<forall>n \<in> set ntf. note_order n < length (orders s))"

text \<open>
  The trades reported by the callbacks \<open>ntf\<close>, and the state of the orders they resolved.
\<close>

fun executed :: "Notification list \<Rightarrow> Trade list" where
  "executed [] = []"
| "executed (OrderExecuted trade # ns) = trade # executed ns"
| "executed (OrderCancelled oid # ns) = executed ns"

definition resolved_ok :: "Engine \<Rightarrow> Notification list \<Rightarrow> bool" where
  "resolved_ok s ntf \<longleftrightarrow>
     distinct (map note_order ntf) \<and>
     (\<forall>n \<in> set ntf. note_order n < length (orders s) \<and> pend_qty (orders s ! note_order n) \<le> 0) \<and>
     trades s = executed ntf"

text \<open>
  Every order is on a tracked instrument, and every queued event is a fill attempt or a
  cancellation of an order of the log.
\<close>

definition wf_engine :: "Engine \<Rightarrow> bool" where
  "wf_engine s \<longleftrightarrow>
     (\<forall>ord \<in> set (orders s). positions s (position ord) \<noteq> None) \<and>
     (\<forall>e \<in> set (events s). ev_order e < length (orders s) \<and> (event_type e = 0 \<or> event_type e = 1))"


text \<open>
  The state \<open>s\<close> with the time-in-force of the order \<open>oid\<close> replaced by \<open>t\<close>: two
  states that differ in that field only are \<open>set_tif oid t s\<close> and \<open>set_tif oid t' s\<close>.
\<close>

definition tif_at :: "nat \<Rightarrow> TimeInForce \<Rightarrow> Order list \<Rightarrow> Order list" where
  "tif_at oid t os = (if oid < length os then os[oid := (os ! oid)\<lparr>tif := t\<rparr>] else os)"

definition set_tif :: "nat \<Rightarrow> TimeInForce \<Rightarrow> Engine \<Rightarrow> Engine" where
  "set_tif oid t s = s\<lparr>orders := tif_at oid t (orders s)\<rparr>"

text \<open>
  A strategy that does not read the time-in-force of the order \<open>oid\<close>, and does not cancel
  that order: its order and bar callbacks return the same on states that differ in that
  field only, and never the command \<open>Cancel oid\<close>.
\<close>

definition tif_blind :: "nat \<Rightarrow> 'st Strategy \<Rightarrow> bool" where
  "tif_blind oid strat \<longleftrightarrow>
     (\<forall>st s t.
        on_order_cancelled strat st (set_tif oid t s) = on_order_cancelled strat st s \<and>
        on_order_executed strat st (set_tif oid t s) = on_order_executed strat st s \<and>
        on_bar_data strat st (set_tif oid t s) = on_bar_data strat st s) \<and>
     (\<forall>st s j. Cancel oid \<notin> set (snd (on_order_cancelled strat st s j))) \<and>
     (\<forall>st s trade. Cancel oid \<notin> set (snd (on_order_executed strat st s trade))) \<and>
     (\<forall>st s i b. Cancel oid \<notin> set (snd (on_bar_data strat st s i b)))"

text \<open>The balance \<open>pend_qty + exec_qty == orig_qty\<close> of one order.\<close>

definition qty_balance :: "Order \<Rightarrow> bool" where
  "qty_balance ord \<longleftrightarrow> pend_qty ord + exec_qty ord = orig_qty ord"

section \<open>Concrete runs\<close>

definition ins_A :: InstrumentID where
  "ins_A = InstrumentID ''SHFE'' ''CU2105''"

definition ins_B :: InstrumentID where
  "ins_B = InstrumentID ''SHFE'' ''AL2105''"

text \<open>An instrument without fees that may hold up to 10, and a bar with a single price.\<close>

definition demo_row :: "InstrumentID \<Rightarrow> InstrumentRow" where
  "demo_row i =
     \<lparr>row_info = \<lparr>ins_id = i, px_tick = 1, qty_tick = 1, multiplier = 1, fee_per_qty = 0, fee_per_mv = 0\<rparr>,
      row_max_hold_qty = 10\<rparr>"

definition demo_bar :: "datetime \<Rightarrow> real \<Rightarrow> BarData" where
  "demo_bar t p =
     \<lparr>bar_time = t, bar_last_time = t + 1, open_px = p, high_px = p, low_px = p, last_px = p,
      trade_qty = 0, trade_mv = 0, bar_hold_qty = 0\<rparr>"

text \<open>
  A strategy that issues the commands of \<open>script ! n\<close> in its callback for the \<open>n\<close>-th bar
  and none elsewhere; its state counts the bars seen.
\<close>

definition scripted :: "Command list list \<Rightarrow> nat Strategy" where
  "scripted script =
     \<lparr>on_start = (\<lambda>st s. (st, [])), on_stop = (\<lambda>st s. (st, [])),
      on_order_cancelled = (\<lambda>st s oid. (st, [])), on_order_executed = (\<lambda>st s trade. (st, [])),
      on_bar_data = (\<lambda>st s i b. (Suc st, if st < length script then script ! st else []))\<rparr>"

definition engine_of :: "(error + ('st \<times> Engine)) option \<Rightarrow> Engine option" where
  "engine_of r = (case r of Some (Inr (st, s)) \<Rightarrow> Some s | _ \<Rightarrow> None)"

text \<open>
  Under \<open>NoTrade\<close>: a buy of 5, a sell of 2 that is immediate-or-cancel and a buy of 7, which
  the capacity of 10 clamps to 5, are submitted on the first bar and resolved on the second.
\<close>

definition pending_run :: "(error + (nat \<times> Engine)) option" where
  "pending_run =
     run 4 NoTrade
       (scripted [[Submit ins_A Buy 5 GTC None, Submit ins_A Sell 2 IOC None, Submit ins_A Buy 7 GTC None]])
       [demo_row ins_A] [(ins_A, demo_bar 0 10), (ins_A, demo_bar 1 11)] 0"

text \<open>
  Under \<open>AlwaysFilled\<close>: a buy of 5 is filled at 11, then a sell of 5 at 12.
\<close>

definition flat_run :: "(error + (nat \<times> Engine)) option" where
  "flat_run =
     run 4 AlwaysFilled
       (scripted [[Submit ins_A Buy 5 GTC None], [Submit ins_A Sell 5 GTC None]])
       [demo_row ins_A] [(ins_A, demo_bar 0 10), (ins_A, demo_bar 1 11), (ins_A, demo_bar 2 12)] 0"

text \<open>
  Under \<open>AlwaysFilled\<close>, with two instruments: a buy of 1 on the first instrument is
  submitted on a bar of that instrument at 10, and the next bar is one of the second
  instrument at 99.
\<close>

definition bar_price_run :: "(error + (nat \<times> Engine)) option" where
  "bar_price_run =
     run 4 AlwaysFilled (scripted [[Submit ins_A Buy 1 GTC None]])
       [demo_row ins_A, demo_row ins_B] [(ins_A, demo_bar 0 10), (ins_B, demo_bar 1 99)] 0"

text \<open>
  The same, but the order is on the second instrument, for which no bar ever arrives: both
  bars are bars of the first instrument.
\<close>

definition unseen_price_run :: "(error + (nat \<times> Engine)) option" where
  "unseen_price_run =
     run 4 AlwaysFilled (scripted [[Submit ins_B Buy 1 GTC None]])
       [demo_row ins_A, demo_row ins_B] [(ins_A, demo_bar 0 10), (ins_A, demo_bar 1 11)] 0"

definition price_of :: "InstrumentID \<Rightarrow> Engine \<Rightarrow> real option" where
  "price_of k s = cur_px s k"

text \<open>
  The state in which the commands \<open>cs\<close> have been issued to a fresh engine with one
  instrument and the bar \<open>b\<close> of instrument \<open>i\<close> has then arrived, before its resolution
  pass; and the state after the resolution of one event.
\<close>

definition queued :: "Command list \<Rightarrow> InstrumentID \<Rightarrow> BarData \<Rightarrow> Engine" where
  "queued cs i b =
     (case run_commands cs (init_engine [demo_row ins_A]) of
        Inl e \<Rightarrow> init_engine []
      | Inr s \<Rightarrow> s\<lparr>cur_tm := Some (bar_last_time b), cur_px := (cur_px s)(i \<mapsto> last_px b)\<rparr>)"

definition resolved :: "MatchAlgorithm \<Rightarrow> InstrumentID \<Rightarrow> Event \<Rightarrow> Engine \<Rightarrow> Engine" where
  "resolved match_algo bar_ins ev s =
     (case process_event match_algo bar_ins ev s of Inl e \<Rightarrow> s | Inr r \<Rightarrow> fst r)"


definition both_queued :: Engine where
  "both_queued = queued [Submit ins_A Buy 5 GTC None, Cancel 0] ins_A (demo_bar 1 11)"

definition first_done :: Engine where
  "first_done = resolved NoTrade ins_A \<lparr>event_type = 0, ev_order = 0\<rparr> both_queued"


text \<open>States built by submissions to a fresh engine with one instrument.\<close>

definition fresh :: Engine where
  "fresh = init_engine [demo_row ins_A]"

definition one_buy :: Engine where
  "one_buy = snd (submit_order fresh ins_A Buy 5 GTC None)"







section \<open>Basic facts\<close>

lemma fop_simps [simp]:
  "fop f None b = None" "fop f a None = None" "fop f (Some x) (Some y) = Some (f x y)"
  by (simp_all add: fop_def split: option.splits)

lemmas fl_defs = fadd_def fsub_def fmul_def fdiv_def NaN_def

lemma lookup_order_Some: "lookup_order s oid = Some ord \<longleftrightarrow> oid < length (orders s) \<and> orders s ! oid = ord"
  by (auto simp: lookup_order_def)

lemma process_event_cases [consumes 1, case_names skip fill ioc idle cancel]:
  assumes "process_event match_algo bar_ins ev s = Inr (s', n)"
  obtains
    (skip) ord where "lookup_order s (ev_order ev) = Some ord" "pend_qty ord \<le> 0" "s' = s" "n = None"
  | (fill) ord ev_pos trade where "lookup_order s (ev_order ev) = Some ord" "0 < pend_qty ord"
      "positions s (position ord) = Some ev_pos" "event_type ev = 0" "match_algo = AlwaysFilled"
      "fill_order bar_ins (ev_order ev) (ord\<lparr>last_time := cur_tm s\<rparr>) ev_pos (pend_qty ord) s = (s', trade)"
      "n = Some (OrderExecuted trade)"
  | (ioc) ord ev_pos where "lookup_order s (ev_order ev) = Some ord" "0 < pend_qty ord"
      "positions s (position ord) = Some ev_pos" "event_type ev = 0" "match_algo = NoTrade" "tif ord = IOC"
      "s' = cancel_pending (ev_order ev) (ord\<lparr>last_time := cur_tm s\<rparr>) ev_pos (pend_qty ord) s"
      "n = Some (OrderCancelled (ev_order ev))"
  | (idle) ord ev_pos where "lookup_order s (ev_order ev) = Some ord" "0 < pend_qty ord"
      "positions s (position ord) = Some ev_pos" "event_type ev = 0" "match_algo = NoTrade" "tif ord = GTC"
      "s' = s\<lparr>orders := (orders s)[ev_order ev := ord\<lparr>last_time := cur_tm s\<rparr>]\<rparr>"
      "n = None"
  | (cancel) ord ev_pos where "lookup_order s (ev_order ev) = Some ord" "0 < pend_qty ord"
      "positions s (position ord) = Some ev_pos" "event_type ev = 1"
      "s' = cancel_pending (ev_order ev) (ord\<lparr>last_time := cur_tm s\<rparr>) ev_pos (pend_qty ord) s"
      "n = Some (OrderCancelled (ev_order ev))"
proof (cases "lookup_order s (ev_order ev)")
  case None
  with assms show ?thesis by (simp add: process_event_def)
next
  case (Some ord)
  note L = Some
  show ?thesis
  proof (cases "pend_qty ord \<le> 0")
    case True
    with assms L have "s' = s" "n = None" by (simp_all add: process_event_def)
    with L True show ?thesis by (rule skip)
  next
    case False
    then have pos: "0 < pend_qty ord" by simp
    show ?thesis
    proof (cases "positions s (position ord)")
      case None
      with assms L False show ?thesis by (simp add: process_event_def)
    next
      case (Some ev_pos)
      note P = Some
      let ?o = "ord\<lparr>last_time := cur_tm s\<rparr>"
      let ?c = "cancel_pending (ev_order ev) ?o ev_pos (pend_qty ord) s"
      note A = assms L False P
      note D = process_event_def Let_def
      show ?thesis
      proof (cases "event_type ev = 0")
        case True
        note T0 = True
        show ?thesis
        proof (cases match_algo)
          case AlwaysFilled
          obtain s2 trade where F: "fill_order bar_ins (ev_order ev) ?o ev_pos (pend_qty ord) s = (s2, trade)"
            by (cases "fill_order bar_ins (ev_order ev) ?o ev_pos (pend_qty ord) s")
          with A T0 AlwaysFilled have R: "s2 = s'" "n = Some (OrderExecuted trade)" by (simp_all add: D)
          from F R have F': "fill_order bar_ins (ev_order ev) ?o ev_pos (pend_qty ord) s = (s', trade)" by simp
          from L pos P T0 AlwaysFilled F' R(2) show ?thesis by (rule fill)
        next
          case NoTrade
          show ?thesis
          proof (cases "tif ord")
            case IOC
            with A T0 NoTrade have R: "s' = ?c" "n = Some (OrderCancelled (ev_order ev))" by (auto simp: D)
            from L pos P T0 NoTrade IOC R show ?thesis by (rule ioc)
          next
            case GTC
            with A T0 NoTrade have R: "s' = s\<lparr>orders := (orders s)[ev_order ev := ?o]\<rparr>" "n = None" by (auto simp: D)
            from L pos P T0 NoTrade GTC R show ?thesis by (rule idle)
          qed
        qed
      next
        case False
        show ?thesis
        proof (cases "event_type ev = 1")
          case True
          with A False have R: "s' = ?c" "n = Some (OrderCancelled (ev_order ev))" by (auto simp: D)
          from L pos P True R show ?thesis by (rule cancel)
        next
          case F2: False
          with A False show ?thesis by (simp add: D)
        qed
      qed
    qed
  qed
qed

lemma submit_order_cases [case_names reject accept]:
  obtains
    (reject) "submit_order s i dir q0 t lmt = (None, s)"
  | (accept) ins_pos q where "positions s i = Some ins_pos"
      "q = min q0 (if dir = Buy then max_hold_qty ins_pos - hold_qty ins_pos - pending_qty ins_pos dir
                   else max_hold_qty ins_pos + hold_qty ins_pos - pending_qty ins_pos dir)"
      "0 < q"
      "submit_order s i dir q0 t lmt =
         (Some (length (orders s)),
          s\<lparr>orders := orders s @ [new_order (length (orders s)) i dir t lmt q (cur_tm s)],
            positions := (positions s)(i \<mapsto> ins_pos\<lparr>pending_qty := (pending_qty ins_pos)(dir := pending_qty ins_pos dir + q)\<rparr>),
            events := events s @ [\<lparr>event_type = 0, ev_order = length (orders s)\<rparr>]\<rparr>)"
proof (cases "positions s i")
  case None
  then have "submit_order s i dir q0 t lmt = (None, s)"
    by (simp add: submit_order_def find_position_def)
  then show ?thesis by (rule reject)
next
  case (Some ins_pos)
  define q where "q = min q0 (if dir = Buy then max_hold_qty ins_pos - hold_qty ins_pos - pending_qty ins_pos dir
                   else max_hold_qty ins_pos + hold_qty ins_pos - pending_qty ins_pos dir)"
  show ?thesis
  proof (cases "q \<le> 0")
    case True
    with Some have "submit_order s i dir q0 t lmt = (None, s)"
      by (simp add: submit_order_def find_position_def q_def Let_def)
    then show ?thesis by (rule reject)
  next
    case False
    then have "0 < q" by simp
    moreover from Some False have "submit_order s i dir q0 t lmt =
         (Some (length (orders s)),
          s\<lparr>orders := orders s @ [new_order (length (orders s)) i dir t lmt q (cur_tm s)],
            positions := (positions s)(i \<mapsto> ins_pos\<lparr>pending_qty := (pending_qty ins_pos)(dir := pending_qty ins_pos dir + q)\<rparr>),
            events := events s @ [\<lparr>event_type = 0, ev_order = length (orders s)\<rparr>]\<rparr>)"
      by (simp add: submit_order_def find_position_def q_def Let_def)
    ultimately show ?thesis using Some q_def by (intro accept)
  qed
qed

lemma cancel_order_cases [consumes 1, case_names refuse enqueue]:
  assumes "cancel_order s oid = Inr (b, s')"
  obtains
    (refuse) ord where "lookup_order s oid = Some ord" "pend_qty ord = 0 \<or> tif ord = IOC" "b = False" "s' = s"
  | (enqueue) ord where "lookup_order s oid = Some ord" "pend_qty ord \<noteq> 0" "tif ord \<noteq> IOC" "b = True"
      "s' = s\<lparr>events := events s @ [\<lparr>event_type = 1, ev_order = oid\<rparr>]\<rparr>"
  using assms by (auto simp: cancel_order_def split: option.splits if_splits)

text \<open>The fields of the state after a fill.\<close>

lemma apply_fill_frame:
  "\<exists>hq mv. fst (apply_fill dir q ev_px p) = p\<lparr>hold_qty := hq, hold_mv := mv\<rparr>"
  by (auto simp: apply_fill_def Let_def split: prod.splits)

lemma fill_order_fields:
  assumes "fill_order bar_ins oid ord ev_pos ev_qty s = (s', trade)"
  shows "orders s' = (orders s)[oid := ord\<lparr>exec_qty := ev_qty, pend_qty := 0\<rparr>]"
    and "events s' = events s" and "cur_tm s' = cur_tm s" and "cur_px s' = cur_px s"
    and "trades s' = trades s @ [trade]" and "trade_order trade = oid"
    and "\<exists>p'. positions s' = (positions s)(position ord \<mapsto> p') \<and>
           pending_qty p' = (pending_qty ev_pos)(direction ord := pending_qty ev_pos (direction ord) - ev_qty)"
  using assms apply_fill_frame [of "direction ord" ev_qty "case cur_px s bar_ins of Some p \<Rightarrow> Some p | None \<Rightarrow> NaN"
      "ev_pos\<lparr>pending_qty := (pending_qty ev_pos)(direction ord := pending_qty ev_pos (direction ord) - ev_qty)\<rparr>"]
  by (auto simp: fill_order_def Let_def split: prod.splits)

lemma cancel_pending_fields:
  "orders (cancel_pending oid ord ev_pos ev_qty s) = (orders s)[oid := ord\<lparr>pend_qty := 0\<rparr>]"
  "events (cancel_pending oid ord ev_pos ev_qty s) = events s"
  "cur_tm (cancel_pending oid ord ev_pos ev_qty s) = cur_tm s"
  "cur_px (cancel_pending oid ord ev_pos ev_qty s) = cur_px s"
  "trades (cancel_pending oid ord ev_pos ev_qty s) = trades s"
  "positions (cancel_pending oid ord ev_pos ev_qty s) =
     (positions s)(position ord \<mapsto> ev_pos\<lparr>pending_qty :=
        (pending_qty ev_pos)(direction ord := pending_qty ev_pos (direction ord) - ev_qty)\<rparr>)"
  by (simp_all add: cancel_pending_def Let_def)


section \<open>Every state of a run is reachable\<close>

lemma submit_order_cur_px: "cur_px (snd (submit_order s i dir q0 t lmt)) = cur_px s"
  by (rule submit_order_cases [where s = s and i = i and dir = dir and ?q0.0 = q0 and t = t and lmt = lmt]) simp_all

lemma cancel_order_cur_px: "cancel_order s oid = Inr (b, s') \<Longrightarrow> cur_px s' = cur_px s"
  by (erule cancel_order_cases) simp_all

lemma process_event_cur_px:
  assumes "process_event match_algo bar_ins ev s = Inr (s', n)"
  shows "cur_px s' = cur_px s"
  using assms
  by (cases rule: process_event_cases) (simp_all add: fill_order_fields cancel_pending_fields)

lemma run_commands_reachable:
  assumes "run_commands cs s = Inr s'" and "reachable match_algo rows s ntf"
  shows "reachable match_algo rows s' ntf \<and> cur_px s' = cur_px s"
  using assms
proof (induction cs s rule: run_commands.induct)
  case (1 s)
  then show ?case by simp
next
  case (2 i dir q t lmt cs s)
  from "2.prems"(2) have "reachable match_algo rows (snd (submit_order s i dir q t lmt)) ntf"
    by (rule reachable.submit)
  with 2 show ?case by (simp add: submit_order_cur_px)
next
  case (3 oid cs s)
  from "3.prems"(1) obtain b s1 where C: "cancel_order s oid = Inr (b, s1)"
    by (cases "cancel_order s oid") auto
  with "3.prems"(2) have R: "reachable match_algo rows s1 ntf" by (auto intro: reachable.cancel)
  from "3.prems"(1) C have "run_commands cs s1 = Inr s'" by simp
  from "3.IH" [OF C refl this R] cancel_order_cur_px [OF C] show ?case by simp
qed

lemma callback_reachable:
  assumes "callback r s = Inr (st', s')" and "reachable match_algo rows s ntf"
  shows "reachable match_algo rows s' ntf \<and> cur_px s' = cur_px s"
proof -
  from assms(1) have "run_commands (snd r) s = Inr s'"
    by (auto simp: callback_def split: sum.splits)
  then show ?thesis using assms(2) by (rule run_commands_reachable)
qed

lemma notify_reachable:
  assumes "notify strat n st s = Inr (st', s')" and "reachable match_algo rows s ntf"
  shows "reachable match_algo rows s' ntf \<and> cur_px s' = cur_px s"
proof (cases n)
  case None
  with assms show ?thesis by simp
next
  case (Some x)
  with assms show ?thesis by (cases x) (auto dest: callback_reachable)
qed

lemma process_events_reachable:
  assumes "process_events fuel match_algo strat bar_ins i st s = Some (Inr (st', s'))"
    and "reachable match_algo rows s ntf" and "cur_px s bar_ins = Some p"
  shows "\<exists>ntf'. reachable match_algo rows s' ntf'"
  using assms
proof (induction fuel arbitrary: i st s ntf)
  case 0
  then show ?case by simp
next
  case (Suc fuel)
  show ?case
  proof (cases "i < length (events s)")
    case False
    with Suc.prems(1) have "s' = s\<lparr>events := []\<rparr>" by simp
    with Suc.prems(2) show ?thesis by (auto intro: reachable.clear)
  next
    case True
    with Suc.prems(1) obtain s1 n st2 s2 where
      E: "process_event match_algo bar_ins (events s ! i) s = Inr (s1, n)"
      and N: "notify strat n st s1 = Inr (st2, s2)"
      and R: "process_events fuel match_algo strat bar_ins (i + 1) st2 s2 = Some (Inr (st', s'))"
      by (auto split: sum.splits)
    from Suc.prems(2) True Suc.prems(3) E have R1: "reachable match_algo rows s1 (ntf @ note_list n)"
      by (rule reachable.event)
    from notify_reachable [OF N R1] process_event_cur_px [OF E] Suc.prems(3)
    have "reachable match_algo rows s2 (ntf @ note_list n)" "cur_px s2 bar_ins = Some p" by simp_all
    with R show ?thesis by (rule Suc.IH)
  qed
qed

lemma on_bar_reachable:
  assumes "on_bar fuel match_algo strat r st s = Some (Inr (st', s'))"
    and "reachable match_algo rows s ntf"
  shows "\<exists>ntf'. reachable match_algo rows s' ntf'"
proof -
  let ?s1 = "s\<lparr>cur_tm := Some (bar_last_time (snd r)), cur_px := (cur_px s)(fst r \<mapsto> last_px (snd r))\<rparr>"
  from assms(1) obtain st1 s2 where
    P: "process_events fuel match_algo strat (fst r) 0 st ?s1 = Some (Inr (st1, s2))"
    and C: "callback (on_bar_data strat st1 s2 (fst r) (snd r)) s2 = Inr (st', s')"
    by (auto simp: on_bar_def Let_def split: option.splits sum.splits)
  from assms(2) have "reachable match_algo rows ?s1 ntf" by (rule reachable.bar)
  with P obtain ntf' where "reachable match_algo rows s2 ntf'"
    by (auto dest: process_events_reachable)
  with C show ?thesis by (auto dest: callback_reachable)
qed

lemma replay_reachable:
  assumes "replay fuel match_algo strat bars st s = Some (Inr (st', s'))"
    and "reachable match_algo rows s ntf"
  shows "\<exists>ntf'. reachable match_algo rows s' ntf'"
  using assms
proof (induction bars arbitrary: st s ntf)
  case Nil
  then show ?case by auto
next
  case (Cons r bars)
  from Cons.prems(1) obtain st1 s1 where
    B: "on_bar fuel match_algo strat r st s = Some (Inr (st1, s1))"
    and R: "replay fuel match_algo strat bars st1 s1 = Some (Inr (st', s'))"
    by (auto split: option.splits sum.splits)
  from on_bar_reachable [OF B Cons.prems(2)] obtain ntf1 where "reachable match_algo rows s1 ntf1" ..
  with R show ?case by (rule Cons.IH)
qed

lemma run_reachable:
  assumes "run fuel match_algo strat rows bars st0 = Some (Inr (st, s))"
  shows "\<exists>ntf. reachable match_algo rows s ntf"
proof -
  from assms obtain st1 s1 st2 s2 where
    A: "callback (on_start strat st0 (init_engine rows)) (init_engine rows) = Inr (st1, s1)"
    and R: "replay fuel match_algo strat bars st1 s1 = Some (Inr (st2, s2))"
    and Z: "callback (on_stop strat st2 s2) s2 = Inr (st, s)"
    by (auto simp: run_def split: option.splits sum.splits)
  from callback_reachable [OF A reachable.start] have "reachable match_algo rows s1 []" by simp
  with R obtain ntf2 where "reachable match_algo rows s2 ntf2" by (auto dest: replay_reachable)
  with Z show ?thesis by (auto dest: callback_reachable)
qed

section \<open>Well-formed states\<close>

lemma wf_engine_submit:
  assumes ok: "wf_engine s"
  shows "wf_engine (snd (submit_order s i dir q0 t lmt))"
proof (rule submit_order_cases [where s = s and i = i and dir = dir and ?q0.0 = q0 and t = t and lmt = lmt], goal_cases)
  case 1
  with ok show ?thesis by simp
next
  case (2 ins_pos q)
  with ok show ?thesis
    by (auto simp: wf_engine_def new_order_def less_Suc_eq)
qed

lemma wf_engine_update:
  assumes ok: "wf_engine s" and L: "lookup_order s oid = Some ord"
    and O: "orders s' = (orders s)[oid := ord']" and K: "position ord' = position ord"
    and P: "positions s' = positions s \<or> (\<exists>p'. positions s' = (positions s)(position ord \<mapsto> p'))"
    and E: "events s' = events s"
  shows "wf_engine s'"
proof -
  have "positions s' (position x) \<noteq> None" if "x \<in> set (orders s')" for x
  proof -
    from that O have "x = ord' \<or> x \<in> set (orders s)"
      by (auto dest: set_update_subset_insert [THEN subsetD])
    moreover from L have "ord \<in> set (orders s)" by (auto simp: lookup_order_Some)
    ultimately have "positions s (position x) \<noteq> None" using ok K by (auto simp: wf_engine_def)
    with P show ?thesis by auto
  qed
  with ok O E show ?thesis by (simp add: wf_engine_def)
qed

lemma wf_engine_event:
  assumes ok: "wf_engine s" and "process_event match_algo bar_ins ev s = Inr (s', n)"
  shows "wf_engine s'"
  using assms(2)
proof (cases rule: process_event_cases)
  case (skip ord)
  with ok show ?thesis by simp
next
  case (fill ord ev_pos trade)
  from fill_order_fields(1,2,7) [OF fill(6)] show ?thesis
    by (intro wf_engine_update [OF ok fill(1),
          where ord' = "ord\<lparr>last_time := cur_tm s, exec_qty := pend_qty ord, pend_qty := 0\<rparr>"]) auto
next
  case (ioc ord ev_pos)
  show ?thesis
    by (rule wf_engine_update [OF ok ioc(1), where ord' = "ord\<lparr>last_time := cur_tm s, pend_qty := 0\<rparr>"])
       (auto simp: ioc(7) cancel_pending_fields)
next
  case (idle ord ev_pos)
  show ?thesis
    by (rule wf_engine_update [OF ok idle(1), where ord' = "ord\<lparr>last_time := cur_tm s\<rparr>"])
       (simp_all add: idle(7))
next
  case (cancel ord ev_pos)
  show ?thesis
    by (rule wf_engine_update [OF ok cancel(1), where ord' = "ord\<lparr>last_time := cur_tm s, pend_qty := 0\<rparr>"])
       (auto simp: cancel(5) cancel_pending_fields)
qed

lemma wf_engine_cancel:
  assumes ok: "wf_engine s" and "cancel_order s oid = Inr (b, s')"
  shows "wf_engine s'"
  using assms(2)
proof (cases rule: cancel_order_cases)
  case (refuse ord)
  with ok show ?thesis by simp
next
  case (enqueue ord)
  with ok show ?thesis by (auto simp: wf_engine_def lookup_order_Some)
qed

lemma reachable_wf:
  assumes "reachable match_algo rows s ntf"
  shows "wf_engine s"
  using assms
proof (induction rule: reachable.induct)
  case start
  show ?case by (simp add: wf_engine_def init_engine_def)
next
  case (submit s ntf i dir q t lmt)
  then show ?case by (simp add: wf_engine_submit)
next
  case (cancel s ntf oid b s')
  from cancel(3) cancel(2) show ?case by (rule wf_engine_cancel)
next
  case (bar s ntf b bar_ins)
  then show ?case by (simp add: wf_engine_def)
next
  case (event s ntf i bar_ins p s' n)
  from event(5) event(4) show ?case by (rule wf_engine_event)
next
  case (clear s ntf)
  then show ?case by (simp add: wf_engine_def)
qed

text \<open>In a run, the resolution of a queued event raises no error.\<close>

lemma process_event_total:
  assumes "wf_engine s" and "ev \<in> set (events s)"
  shows "\<exists>s' n. process_event match_algo bar_ins ev s = Inr (s', n)"
proof -
  from assms have L: "lookup_order s (ev_order ev) = Some (orders s ! ev_order ev)"
    and T: "event_type ev = 0 \<or> event_type ev = 1"
    by (auto simp: wf_engine_def lookup_order_Some)
  from assms have "positions s (position (orders s ! ev_order ev)) \<noteq> None"
    by (auto simp: wf_engine_def)
  then obtain ev_pos where P: "positions s (position (orders s ! ev_order ev)) = Some ev_pos" by auto
  from L P T show ?thesis
    by (auto simp: process_event_def Let_def split: prod.splits)
qed

lemma reachable_event_total:
  assumes "reachable match_algo rows s ntf" and "i < length (events s)"
  shows "\<exists>s' n. process_event match_algo bar_ins (events s ! i) s = Inr (s', n)"
  using reachable_wf [OF assms(1)] assms(2) by (intro process_event_total) simp_all

lemma process_event_skip:
  "lookup_order s (ev_order ev) = Some ord \<Longrightarrow> pend_qty ord \<le> 0 \<Longrightarrow>
     process_event match_algo bar_ins ev s = Inr (s, None)"
  by (simp add: process_event_def)


section \<open>The fill price\<close>

lemma fill_order_price:
  assumes "fill_order bar_ins oid ord ev_pos ev_qty s = (s', trade)"
  shows "px trade = (case cur_px s bar_ins of Some p \<Rightarrow> Some p | None \<Rightarrow> NaN)"
  using assms by (auto simp: fill_order_def Let_def split: prod.splits)

text \<open>
  The price looked up is that of the arriving bar's instrument, stored just before the
  pass, so the fallback to NaN is never taken: no trade of a run has a NaN price.
\<close>

lemma reachable_trades_priced:
  assumes "reachable match_algo rows s ntf"
  shows "\<forall>trade \<in> set (trades s). px trade \<noteq> NaN"
  using assms
proof (induction rule: reachable.induct)
  case start
  show ?case by (simp add: init_engine_def)
next
  case (submit s ntf i dir q t lmt)
  have "trades (snd (submit_order s i dir q t lmt)) = trades s"
    by (rule submit_order_cases [where s = s and i = i and dir = dir and ?q0.0 = q and t = t and lmt = lmt])
       simp_all
  with submit show ?case by simp
next
  case (cancel s ntf oid b s')
  from cancel(2) have "trades s' = trades s"
    by (cases rule: cancel_order_cases) simp_all
  with cancel(3) show ?case by simp
next
  case (bar s ntf b bar_ins)
  then show ?case by simp
next
  case (event s ntf i bar_ins p s' n)
  from event(4) show ?case
  proof (cases rule: process_event_cases)
    case (fill ord ev_pos trade)
    from fill_order_price [OF fill(6)] event(3) have "px trade \<noteq> NaN" by (simp add: NaN_def)
    with fill_order_fields(5) [OF fill(6)] event(5) show ?thesis by simp
  qed (use event(5) in \<open>simp_all add: cancel_pending_fields\<close>)
next
  case (clear s ntf)
  then show ?case by simp
qed

text \<open>
  C1. The code fills at the last price of the instrument of the arriving bar, which is
  always in the table, not at that of the order's own instrument. In the first run the
  order on the first instrument is filled at 99, the price of the second, while the table
  holds 10 for its own instrument; in the second run the order on an instrument without
  any price is filled at 11, not at NaN.
\<close>

theorem fill_price_is_that_of_the_arriving_bar:
  "map_option (map px \<circ> trades) (engine_of bar_price_run) = Some [Some 99] \<and>
   map_option (map position \<circ> orders) (engine_of bar_price_run) = Some [ins_A] \<and>
   map_option (price_of ins_A) (engine_of bar_price_run) = Some (Some 10) \<and>
   map_option (map px \<circ> trades) (engine_of unseen_price_run) = Some [Some 11] \<and>
   map_option (map position \<circ> orders) (engine_of unseen_price_run) = Some [ins_B] \<and>
   map_option (price_of ins_B) (engine_of unseen_price_run) = Some None"
  by code_simp

section \<open>Pending quantities\<close>





lemma pending_sum_cong: "orders s' = orders s \<Longrightarrow> pending_sum s' k d = pending_sum s k d"
  by (simp add: pending_sum_def)









section \<open>Order quantities\<close>

lemma orders_okD:
  "orders_ok s ntf \<Longrightarrow> lookup_order s oid = Some ord \<Longrightarrow> order_ok ntf oid ord"
  by (auto simp: orders_ok_def lookup_order_Some)

lemma orders_ok_same:
  "orders_ok s ntf \<Longrightarrow> orders s' = orders s \<Longrightarrow> orders_ok s' ntf"
  by (simp add: orders_ok_def)

lemma orders_ok_submit:
  assumes ok: "orders_ok s ntf"
  shows "orders_ok (snd (submit_order s i dir q0 t lmt)) ntf"
proof (rule submit_order_cases [where s = s and i = i and dir = dir and ?q0.0 = q0 and t = t and lmt = lmt], goal_cases)
  case 1
  with ok show ?thesis by simp
next
  case (2 ins_pos q)
  from ok have "OrderCancelled (length (orders s)) \<notin> set ntf"
    by (force simp: orders_ok_def)
  with 2(3) have "order_ok ntf (length (orders s)) (new_order (length (orders s)) i dir t lmt q (cur_tm s))"
    by (simp add: order_ok_def new_order_def)
  with ok 2(4) show ?thesis
    by (auto simp: orders_ok_def nth_append less_Suc_eq)
qed

text \<open>An event that resolves the order \<open>oid\<close>, which was pending.\<close>

lemma order_ok_pending:
  "order_ok ntf oid ord \<Longrightarrow> 0 < pend_qty ord \<Longrightarrow>
     OrderCancelled oid \<notin> set ntf \<and> pend_qty ord = orig_qty ord \<and> exec_qty ord = 0"
  by (auto simp: order_ok_def split: if_splits)

lemma orders_ok_update:
  assumes ok: "orders_ok s ntf" and L: "lookup_order s oid = Some ord"
    and O: "orders s' = (orders s)[oid := ord']"
    and N: "\<forall>x \<in> set ns. note_order x = oid"
    and R: "order_ok (ntf @ ns) oid ord'"
  shows "orders_ok s' (ntf @ ns)"
  unfolding orders_ok_def
proof (intro conjI allI impI ballI)
  fix j
  assume "j < length (orders s')"
  with O have J: "j < length (orders s)" by simp
  show "order_ok (ntf @ ns) j (orders s' ! j)"
  proof (cases "j = oid")
    case True
    with O J R show ?thesis by simp
  next
    case False
    with N have "OrderCancelled j \<in> set (ntf @ ns) \<longleftrightarrow> OrderCancelled j \<in> set ntf" by auto
    with ok J O False show ?thesis by (simp add: orders_ok_def order_ok_def)
  qed
next
  fix n
  assume "n \<in> set (ntf @ ns)"
  with ok N L O show "note_order n < length (orders s')"
    by (auto simp: orders_ok_def lookup_order_Some)
qed

lemma orders_ok_event:
  assumes ok: "orders_ok s ntf" and "process_event match_algo bar_ins ev s = Inr (s', n)"
  shows "orders_ok s' (ntf @ note_list n)"
  using assms(2)
proof (cases rule: process_event_cases)
  case (skip ord)
  with ok show ?thesis by simp
next
  case (fill ord ev_pos trade)
  from ok fill(1) have "order_ok ntf (ev_order ev) ord" by (rule orders_okD)
  from order_ok_pending [OF this fill(2)] fill(2)
  have "order_ok (ntf @ note_list n) (ev_order ev) (ord\<lparr>last_time := cur_tm s, exec_qty := pend_qty ord, pend_qty := 0\<rparr>)"
    by (simp add: order_ok_def fill(7))
  moreover from fill_order_fields(1,6) [OF fill(6)]
  have "orders s' = (orders s)[ev_order ev := ord\<lparr>last_time := cur_tm s, exec_qty := pend_qty ord, pend_qty := 0\<rparr>]"
    "\<forall>x \<in> set (note_list n). note_order x = ev_order ev"
    by (simp_all add: fill(7))
  ultimately show ?thesis using ok fill(1) by (intro orders_ok_update) auto
next
  case (ioc ord ev_pos)
  from ok ioc(1) have "order_ok ntf (ev_order ev) ord" by (rule orders_okD)
  from order_ok_pending [OF this ioc(2)] ioc(2)
  have "order_ok (ntf @ note_list n) (ev_order ev) (ord\<lparr>last_time := cur_tm s, pend_qty := 0\<rparr>)"
    by (simp add: order_ok_def ioc(8))
  with ok ioc(1) show ?thesis
    by (intro orders_ok_update) (auto simp: ioc(7,8) cancel_pending_fields)
next
  case (idle ord ev_pos)
  from ok idle(1) have "order_ok ntf (ev_order ev) ord" by (rule orders_okD)
  then have "order_ok (ntf @ note_list n) (ev_order ev) (ord\<lparr>last_time := cur_tm s\<rparr>)"
    by (simp add: order_ok_def idle(8))
  with ok idle(1) show ?thesis
    by (intro orders_ok_update) (auto simp: idle(7,8))
next
  case (cancel ord ev_pos)
  from ok cancel(1) have "order_ok ntf (ev_order ev) ord" by (rule orders_okD)
  from order_ok_pending [OF this cancel(2)] cancel(2)
  have "order_ok (ntf @ note_list n) (ev_order ev) (ord\<lparr>last_time := cur_tm s, pend_qty := 0\<rparr>)"
    by (simp add: order_ok_def cancel(6))
  with ok cancel(1) show ?thesis
    by (intro orders_ok_update) (auto simp: cancel(5,6) cancel_pending_fields)
qed

lemma reachable_orders_ok:
  assumes "reachable match_algo rows s ntf"
  shows "orders_ok s ntf"
  using assms
proof (induction rule: reachable.induct)
  case start
  show ?case by (simp add: orders_ok_def init_engine_def)
next
  case (submit s ntf i dir q t lmt)
  then show ?case by (simp add: orders_ok_submit)
next
  case (cancel s ntf oid b s')
  from cancel(2) have "orders s' = orders s"
    by (cases rule: cancel_order_cases) simp_all
  with cancel(3) show ?case by (rule orders_ok_same)
next
  case (bar s ntf b bar_ins)
  then show ?case by (simp add: orders_ok_def)
next
  case (event s ntf i bar_ins p s' n)
  from event(5) event(4) show ?case by (rule orders_ok_event)
next
  case (clear s ntf)
  then show ?case by (simp add: orders_ok_def)
qed

text \<open>
  C2 as the specification states it, with \<open>pend_qty + exec_qty == orig_qty\<close> also
  after a cancellation, fails there: the immediate-or-cancel order of this run was created
  with quantity 2 and is cancelled with nothing pending and nothing executed.
\<close>

theorem cancelled_order_breaks_balance:
  "map_option (map qty_balance \<circ> orders) (engine_of pending_run) = Some [True, False, True] \<and>
   map_option (map orig_qty \<circ> orders) (engine_of pending_run) = Some [5, 2, 5] \<and>
   map_option (map pend_qty \<circ> orders) (engine_of pending_run) = Some [5, 0, 5] \<and>
   map_option (map exec_qty \<circ> orders) (engine_of pending_run) = Some [0, 0, 0]"
  by code_simp

text \<open>
  C2, as amended. For every order, in every state of a run: as long as the order has not
  been cancelled, \<open>pend_qty + exec_qty == orig_qty\<close>, at creation and after a fill; once it
  has been cancelled, \<open>pend_qty == 0\<close> and \<open>exec_qty == 0\<close>, which is not \<open>orig_qty\<close>.
\<close>

theorem order_quantities_by_lifecycle:
  assumes "reachable match_algo rows s ntf" and "lookup_order s oid = Some ord"
  shows "if OrderCancelled oid \<in> set ntf
         then pend_qty ord = 0 \<and> exec_qty ord = 0 \<and> pend_qty ord + exec_qty ord \<noteq> orig_qty ord
         else pend_qty ord + exec_qty ord = orig_qty ord"
proof -
  from assms(1) have "orders_ok s ntf" by (rule reachable_orders_ok)
  then have "order_ok ntf oid ord" using assms(2) by (rule orders_okD)
  then show ?thesis by (auto simp: order_ok_def)
qed

theorem order_quantities_by_lifecycle_witness:
  "\<exists>s ntf ord. engine_of pending_run = Some s \<and> reachable NoTrade [demo_row ins_A] s ntf \<and>
     lookup_order s 1 = Some ord \<and> OrderCancelled 1 \<in> set ntf \<and>
     pend_qty ord = 0 \<and> exec_qty ord = 0 \<and> orig_qty ord = 2"
proof -
  have "engine_of pending_run \<noteq> None" by code_simp
  then obtain st s where R: "pending_run = Some (Inr (st, s))"
    by (auto simp: engine_of_def split: option.splits sum.splits)
  have S: "engine_of pending_run = Some s" unfolding R engine_of_def by simp
  from R obtain ntf where A: "reachable NoTrade [demo_row ins_A] s ntf"
    unfolding pending_run_def by (auto dest: run_reachable)
  have "map_option (\<lambda>s. map_option (\<lambda>ord. (pend_qty ord, exec_qty ord, orig_qty ord)) (lookup_order s 1))
          (engine_of pending_run) = Some (Some (0, 0, 2))"
    by code_simp
  then obtain ord where L: "lookup_order s 1 = Some ord"
    and Q: "pend_qty ord = 0" "exec_qty ord = 0" "orig_qty ord = 2"
    unfolding S by auto
  from order_quantities_by_lifecycle [OF A L] Q have "OrderCancelled 1 \<in> set ntf"
    by (auto split: if_splits)
  with S A L Q show ?thesis by blast
qed

section \<open>A sell that crosses from long to short\<close>

text \<open>
  C3 as the specification states it, with \<open>hold_mv = 120\<close> in the end, fails: the cost
  basis carries the sign of the holding, so the remainder of a sell is subtracted from it.
\<close>

theorem crossing_sell_cost_basis_is_not_positive:
  "hold_mv (fst (apply_fill Sell 5 (Some 60)
      ((new_position (demo_row ins_A))\<lparr>hold_qty := 3, hold_mv := Some 150\<rparr>))) \<noteq> Some 120 \<and>
   hold_mv (fst (apply_fill Sell 5 (Some 60)
      ((new_position (demo_row ins_A))\<lparr>hold_qty := 3, hold_mv := Some 150\<rparr>))) = Some (- 120)"
  by (simp add: apply_fill_def fl_defs Let_def)

text \<open>
  C3, as amended. For a position long 3 at average cost 50, a sell fill of 5 at 60 closes
  3 with a realised profit of 30, and the remaining 2 opens a short: afterwards
  \<open>hold_qty = -2\<close> and \<open>hold_mv = -120\<close>, the remainder times the price having been
  subtracted from \<open>hold_mv\<close>.
\<close>

theorem crossing_sell_opens_short:
  "apply_fill Sell 5 (Some 60) (p\<lparr>hold_qty := 3, hold_mv := Some 150\<rparr>) =
     (p\<lparr>hold_qty := - 2, hold_mv := Some (- 120)\<rparr>, 3, Some 30)"
  by (simp add: apply_fill_def fl_defs Let_def)

section \<open>Submission and cancellation\<close>







section \<open>Cost basis of a flat position\<close>


lemma flat_ok_pending [simp]: "flat_ok (p\<lparr>pending_qty := f\<rparr>) = flat_ok p"
  by (simp add: flat_ok_def)








section \<open>Fill attempts under NoTrade\<close>







section \<open>An order is resolved at most once\<close>

lemma executed_append: "executed (xs @ ys) = executed xs @ executed ys"
  by (induction xs rule: executed.induct) simp_all

lemma executed_orders: "set (map trade_order (executed ntf)) \<subseteq> set (map note_order ntf)"
  by (induction ntf rule: executed.induct) auto

lemma distinct_executed: "distinct (map note_order ntf) \<Longrightarrow> distinct (map trade_order (executed ntf))"
proof (induction ntf rule: executed.induct)
  case 1
  then show ?case by simp
next
  case (2 trade ns)
  with executed_orders [of ns] show ?case by auto
next
  case (3 oid ns)
  then show ?case by simp
qed

lemma resolved_ok_same:
  "resolved_ok s ntf \<Longrightarrow> orders s' = orders s \<Longrightarrow> trades s' = trades s \<Longrightarrow> resolved_ok s' ntf"
  by (simp add: resolved_ok_def)

lemma resolved_ok_submit:
  assumes ok: "resolved_ok s ntf"
  shows "resolved_ok (snd (submit_order s i dir q0 t lmt)) ntf"
proof (rule submit_order_cases [where s = s and i = i and dir = dir and ?q0.0 = q0 and t = t and lmt = lmt], goal_cases)
  case 1
  with ok show ?thesis by simp
next
  case (2 ins_pos q)
  with ok show ?thesis
    by (auto simp: resolved_ok_def lookup_order_Some nth_append)
qed

text \<open>An event resolves the pending order \<open>oid\<close> and invokes the callback \<open>x\<close> for it.\<close>

lemma resolved_ok_resolve:
  assumes ok: "resolved_ok s ntf" and L: "lookup_order s oid = Some ord" and pos: "0 < pend_qty ord"
    and O: "orders s' = (orders s)[oid := ord']" and Z: "pend_qty ord' = 0"
    and X: "note_order x = oid" and T: "trades s' = trades s @ executed [x]"
  shows "resolved_ok s' (ntf @ [x])"
proof -
  from ok L pos have fresh: "oid \<notin> note_order ` set ntf"
    by (auto simp: resolved_ok_def lookup_order_Some)
  have "note_order n < length (orders s') \<and> pend_qty (orders s' ! note_order n) \<le> 0"
    if "n \<in> set (ntf @ [x])" for n
  proof (cases "note_order n = oid")
    case True
    with L O Z show ?thesis by (simp add: lookup_order_Some)
  next
    case False
    with that X have "n \<in> set ntf" by auto
    with ok have "note_order n < length (orders s)" "pend_qty (orders s ! note_order n) \<le> 0"
      by (auto simp: resolved_ok_def)
    with False O show ?thesis by simp
  qed
  with ok fresh X T show ?thesis
    by (auto simp: resolved_ok_def executed_append)
qed

lemma resolved_ok_touch:
  assumes ok: "resolved_ok s ntf" and L: "lookup_order s oid = Some ord"
    and O: "orders s' = (orders s)[oid := ord\<lparr>last_time := tm\<rparr>]" and T: "trades s' = trades s"
  shows "resolved_ok s' ntf"
proof -
  have "note_order n < length (orders s') \<and> pend_qty (orders s' ! note_order n) \<le> 0"
    if "n \<in> set ntf" for n
  proof -
    from that ok have "note_order n < length (orders s)" "pend_qty (orders s ! note_order n) \<le> 0"
      by (auto simp: resolved_ok_def)
    with L O show ?thesis by (cases "note_order n = oid") (auto simp: lookup_order_Some)
  qed
  with ok T show ?thesis by (auto simp: resolved_ok_def)
qed

lemma resolved_ok_event:
  assumes ok: "resolved_ok s ntf" and "process_event match_algo bar_ins ev s = Inr (s', n)"
  shows "resolved_ok s' (ntf @ note_list n)"
  using assms(2)
proof (cases rule: process_event_cases)
  case (skip ord)
  with ok show ?thesis by simp
next
  case (fill ord ev_pos trade)
  from fill_order_fields(1,5,6) [OF fill(6)] show ?thesis
    unfolding fill(7) note_list.simps
    by (intro resolved_ok_resolve [OF ok fill(1) fill(2),
          where ord' = "ord\<lparr>last_time := cur_tm s, exec_qty := pend_qty ord, pend_qty := 0\<rparr>"]) simp_all
next
  case (ioc ord ev_pos)
  show ?thesis
    unfolding ioc(8) note_list.simps
    by (rule resolved_ok_resolve [OF ok ioc(1) ioc(2), where ord' = "ord\<lparr>last_time := cur_tm s, pend_qty := 0\<rparr>"])
       (simp_all add: ioc(7) cancel_pending_fields)
next
  case (idle ord ev_pos)
  show ?thesis
    unfolding idle(8) note_list.simps append_Nil2
    by (rule resolved_ok_touch [OF ok idle(1), where tm = "cur_tm s"]) (simp_all add: idle(7))
next
  case (cancel ord ev_pos)
  show ?thesis
    unfolding cancel(6) note_list.simps
    by (rule resolved_ok_resolve [OF ok cancel(1) cancel(2), where ord' = "ord\<lparr>last_time := cur_tm s, pend_qty := 0\<rparr>"])
       (simp_all add: cancel(5) cancel_pending_fields)
qed

text \<open>
  C9 as the specification states it, with only the earlier of a fill attempt and a cancel
  event queued for the same order taking effect, fails under \<open>NoTrade\<close> for a
  good-till-cancel order: the fill attempt, queued first, leaves the order pending, and the
  cancel event cancels it.
\<close>

theorem later_cancel_takes_effect:
  "map event_type (events both_queued) = [0, 1] \<and> map ev_order (events both_queued) = [0, 0] \<and>
   map tif (orders both_queued) = [GTC] \<and>
   map_sum id snd (process_event NoTrade ins_A \<lparr>event_type = 0, ev_order = 0\<rparr> both_queued) = Inr None \<and>
   map pend_qty (orders first_done) = [5] \<and>
   map_sum id snd (process_event NoTrade ins_A \<lparr>event_type = 1, ev_order = 0\<rparr> first_done)
     = Inr (Some (OrderCancelled 0)) \<and>
   map pend_qty (orders (resolved NoTrade ins_A \<lparr>event_type = 1, ev_order = 0\<rparr> first_done)) = [0]"
  by code_simp

text \<open>
  C9, as amended. In a run, each order is the subject of at most one callback, an execution
  or a cancellation, so it is never both filled and cancelled and has at most one trade;
  and once an event has resolved an order, every event for that order is skipped with no
  effect. Of a fill attempt and a cancel event queued for one order, the fill attempt is
  the one that takes effect whenever it resolves the order.
\<close>

theorem resolved_order_is_never_touched_again:
  assumes "reachable match_algo rows s ntf"
  shows "distinct (map note_order ntf) \<and> trades s = executed ntf \<and>
         distinct (map trade_order (trades s)) \<and>
         (\<forall>n \<in> set ntf. \<forall>ev bar_ins. ev_order ev = note_order n \<longrightarrow>
            process_event match_algo bar_ins ev s = Inr (s, None))"
proof -
  from assms have ok: "resolved_ok s ntf"
  proof (induction rule: reachable.induct)
    case start
    show ?case by (simp add: resolved_ok_def init_engine_def)
  next
    case (submit s ntf i dir q t lmt)
    then show ?case by (simp add: resolved_ok_submit)
  next
    case (cancel s ntf oid b s')
    from cancel(2) have "orders s' = orders s" "trades s' = trades s"
      by (cases rule: cancel_order_cases; simp)+
    with cancel(3) show ?case by (rule resolved_ok_same)
  next
    case (bar s ntf b bar_ins)
    then show ?case by (simp add: resolved_ok_def)
  next
    case (event s ntf i bar_ins p s' n)
    from event(5) event(4) show ?case by (rule resolved_ok_event)
  next
    case (clear s ntf)
    then show ?case by (simp add: resolved_ok_def)
  qed
  then have "distinct (map note_order ntf)" "trades s = executed ntf"
    by (simp_all add: resolved_ok_def)
  moreover from this have "distinct (map trade_order (trades s))"
    by (simp add: distinct_executed)
  moreover have "process_event match_algo bar_ins ev s = Inr (s, None)"
    if "n \<in> set ntf" "ev_order ev = note_order n" for n ev bar_ins
  proof -
    from ok that have "lookup_order s (ev_order ev) = Some (orders s ! ev_order ev)"
      "pend_qty (orders s ! ev_order ev) \<le> 0"
      by (auto simp: resolved_ok_def lookup_order_Some)
    then show ?thesis by (rule process_event_skip)
  qed
  ultimately show ?thesis by blast
qed

theorem resolved_order_is_never_touched_again_witness:
  "\<exists>s ntf. engine_of flat_run = Some s \<and> reachable AlwaysFilled [demo_row ins_A] s ntf \<and>
     distinct (map note_order ntf) \<and> trades s = executed ntf \<and>
     map trade_order (trades s) = [0, 1] \<and>
     process_event AlwaysFilled ins_A \<lparr>event_type = 1, ev_order = 0\<rparr> s = Inr (s, None)"
proof -
  have "engine_of flat_run \<noteq> None" by code_simp
  then obtain st s where R: "flat_run = Some (Inr (st, s))"
    by (auto simp: engine_of_def split: option.splits sum.splits)
  have S: "engine_of flat_run = Some s" unfolding R engine_of_def by simp
  from R obtain ntf where A: "reachable AlwaysFilled [demo_row ins_A] s ntf"
    unfolding flat_run_def by (auto dest: run_reachable)
  note T = resolved_order_is_never_touched_again [OF A]
  have "map_option (map trade_order \<circ> trades) (engine_of flat_run) = Some [0, 1]" by code_simp
  then have O: "map trade_order (trades s) = [0, 1]" unfolding S by simp
  with T have "0 \<in> set (map trade_order (executed ntf))" by simp
  with executed_orders [of ntf] obtain n where N: "n \<in> set ntf" "note_order n = 0" by auto
  with T have X: "process_event AlwaysFilled ins_A \<lparr>event_type = 1, ev_order = 0\<rparr> s = Inr (s, None)"
    by simp
  from T have D: "distinct (map note_order ntf)" "trades s = executed ntf" by simp_all
  show ?thesis
    by (intro exI [of _ s] exI [of _ ntf] conjI) (fact S A D O X)+
qed

section \<open>Time in force under AlwaysFilled\<close>

lemma length_tif_at [simp]: "length (tif_at oid t os) = length os"
  by (simp add: tif_at_def)

lemma nth_tif_at:
  "j < length os \<Longrightarrow> tif_at oid t os ! j = (if j = oid then (os ! j)\<lparr>tif := t\<rparr> else os ! j)"
  by (simp add: tif_at_def)

lemma tif_at_update:
  "j < length os \<Longrightarrow>
     tif_at oid t (os[j := x]) = (tif_at oid t os)[j := (if j = oid then x\<lparr>tif := t\<rparr> else x)]"
  by (auto simp: tif_at_def list_update_swap)

lemma lookup_set_tif:
  "lookup_order (set_tif oid t s) j =
     (if j = oid then map_option (\<lambda>ord. ord\<lparr>tif := t\<rparr>) (lookup_order s j) else lookup_order s j)"
  by (auto simp: lookup_order_def set_tif_def nth_tif_at)

lemma tif_update_outward:
  "ord\<lparr>tif := t, pend_qty := q\<rparr> = ord\<lparr>pend_qty := q, tif := t\<rparr>"
  "ord\<lparr>tif := t, exec_qty := q\<rparr> = ord\<lparr>exec_qty := q, tif := t\<rparr>"
  "ord\<lparr>tif := t, last_time := tm\<rparr> = ord\<lparr>last_time := tm, tif := t\<rparr>"
  for ord :: Order
  by simp_all

lemma fill_order_set_tif:
  assumes "j < length (orders s)"
  shows "fill_order bar_ins j (if j = oid then ord\<lparr>tif := t\<rparr> else ord) ev_pos q (set_tif oid t s) =
         map_prod (set_tif oid t) id (fill_order bar_ins j ord ev_pos q s)"
  using assms
  by (auto simp: fill_order_def Let_def set_tif_def tif_at_update tif_update_outward split: prod.splits)

lemma cancel_pending_set_tif:
  assumes "j < length (orders s)"
  shows "cancel_pending j (if j = oid then ord\<lparr>tif := t\<rparr> else ord) ev_pos q (set_tif oid t s) =
         set_tif oid t (cancel_pending j ord ev_pos q s)"
  using assms
  by (auto simp: cancel_pending_def Let_def set_tif_def tif_at_update tif_update_outward)

lemma process_event_set_tif:
  "process_event AlwaysFilled bar_ins ev (set_tif oid t s) =
     map_sum id (map_prod (set_tif oid t) id) (process_event AlwaysFilled bar_ins ev s)"
proof (cases "lookup_order s (ev_order ev)")
  case None
  then have "lookup_order (set_tif oid t s) (ev_order ev) = None"
    by (auto simp: lookup_set_tif)
  with None show ?thesis by (simp add: process_event_def)
next
  case (Some ord)
  then have J: "ev_order ev < length (orders s)" by (simp add: lookup_order_Some)
  let ?ord' = "if ev_order ev = oid then ord\<lparr>tif := t\<rparr> else ord"
  from Some have L: "lookup_order (set_tif oid t s) (ev_order ev) = Some ?ord'"
    by (auto simp: lookup_set_tif)
  have F: "positions (set_tif oid t s) = positions s" "cur_tm (set_tif oid t s) = cur_tm s"
    by (simp_all add: set_tif_def)
  have K: "pend_qty ?ord' = pend_qty ord" "position ?ord' = position ord" by simp_all
  have U: "?ord'\<lparr>last_time := cur_tm s\<rparr> = (if ev_order ev = oid then ord\<lparr>last_time := cur_tm s, tif := t\<rparr> else ord\<lparr>last_time := cur_tm s\<rparr>)"
    by simp
  show ?thesis
  proof (cases "pend_qty ord \<le> 0")
    case True
    with Some L show ?thesis by (simp add: process_event_def K)
  next
    case False
    show ?thesis
    proof (cases "positions s (position ord)")
      case None
      with Some L False show ?thesis by (simp add: process_event_def K F)
    next
      case P: (Some ev_pos)
      from fill_order_set_tif [OF J, where bar_ins = bar_ins and oid = oid and t = t and ev_pos = ev_pos
            and ord = "ord\<lparr>last_time := cur_tm s\<rparr>" and q = "pend_qty ord"]
        cancel_pending_set_tif [OF J, where oid = oid and t = t and ev_pos = ev_pos
            and ord = "ord\<lparr>last_time := cur_tm s\<rparr>" and q = "pend_qty ord"]
      show ?thesis
        unfolding process_event_def Some L
        by (auto simp: K F P False Let_def tif_update_outward split: prod.splits)
    qed
  qed
qed

lemma submit_set_tif:
  "submit_order s i dir q0 t' lmt =
     map_prod id (set_tif (length (orders s)) t') (submit_order s i dir q0 t lmt)"
proof (cases "positions s i")
  case None
  then show ?thesis
    by (simp add: submit_order_def find_position_def set_tif_def tif_at_def)
next
  case (Some ins_pos)
  then show ?thesis
    by (simp add: submit_order_def find_position_def Let_def set_tif_def tif_at_def new_order_def)
qed

lemma set_tif_simps [simp]:
  "events (set_tif oid t s) = events s" "positions (set_tif oid t s) = positions s"
  "trades (set_tif oid t s) = trades s" "cur_tm (set_tif oid t s) = cur_tm s"
  "cur_px (set_tif oid t s) = cur_px s" "length (orders (set_tif oid t s)) = length (orders s)"
  by (simp_all add: set_tif_def)

lemma submit_order_length: "length (orders s) \<le> length (orders (snd (submit_order s i dir q0 t lmt)))"
  by (rule submit_order_cases [where s = s and i = i and dir = dir and ?q0.0 = q0 and t = t and lmt = lmt])
     simp_all

lemma cancel_order_length: "cancel_order s j = Inr (b, s') \<Longrightarrow> length (orders s') = length (orders s)"
  by (erule cancel_order_cases) simp_all

lemma process_event_length:
  assumes "process_event match_algo bar_ins ev s = Inr (s', n)"
  shows "length (orders s') = length (orders s)"
  using assms
  by (cases rule: process_event_cases) (simp_all add: fill_order_fields cancel_pending_fields)

lemma tif_at_append:
  "oid < length os \<Longrightarrow> tif_at oid t (os @ [x]) = tif_at oid t os @ [x]"
  by (simp add: tif_at_def list_update_append nth_append)

lemma submit_order_set_tif:
  assumes "oid < length (orders s)"
  shows "submit_order (set_tif oid t s) i dir q0 t' lmt =
         map_prod id (set_tif oid t) (submit_order s i dir q0 t' lmt)"
proof (cases "positions s i")
  case None
  then show ?thesis by (simp add: submit_order_def find_position_def)
next
  case (Some ins_pos)
  with assms show ?thesis
    by (simp add: submit_order_def find_position_def Let_def set_tif_def tif_at_append)
qed

lemma cancel_order_set_tif:
  assumes "j \<noteq> oid"
  shows "cancel_order (set_tif oid t s) j = map_sum id (map_prod id (set_tif oid t)) (cancel_order s j)"
proof -
  from assms have L: "lookup_order (set_tif oid t s) j = lookup_order s j"
    by (simp add: lookup_set_tif)
  show ?thesis
  proof (cases "lookup_order s j")
    case None
    with L show ?thesis by (simp add: cancel_order_def)
  next
    case (Some ord)
    with L show ?thesis by (simp add: cancel_order_def set_tif_def)
  qed
qed

lemma run_commands_length:
  "run_commands cs s = Inr s' \<Longrightarrow> length (orders s) \<le> length (orders s')"
proof (induction cs s rule: run_commands.induct)
  case (1 s)
  then show ?case by simp
next
  case (2 i dir q t lmt cs s)
  with submit_order_length [of s i dir q t lmt] show ?case by fastforce
next
  case (3 oid cs s)
  from "3.prems" obtain b s1 where C: "cancel_order s oid = Inr (b, s1)"
    and R: "run_commands cs s1 = Inr s'"
    by (cases "cancel_order s oid") auto
  from "3.IH" [OF C refl R] cancel_order_length [OF C] show ?case by simp
qed

lemma run_commands_set_tif:
  assumes "Cancel oid \<notin> set cs" and "oid < length (orders s)"
  shows "run_commands cs (set_tif oid t s) = map_sum id (set_tif oid t) (run_commands cs s)"
  using assms
proof (induction cs s rule: run_commands.induct)
  case (1 s)
  then show ?case by simp
next
  case (2 i dir q t' lmt cs s)
  from "2.prems"(2) submit_order_length [of s i dir q t' lmt]
  have "oid < length (orders (snd (submit_order s i dir q t' lmt)))" by simp
  with 2 show ?case by (simp add: submit_order_set_tif)
next
  case (3 j cs s)
  from "3.prems"(1) have J: "j \<noteq> oid" and N: "Cancel oid \<notin> set cs" by auto
  show ?case
  proof (cases "cancel_order s j")
    case (Inl e)
    with J show ?thesis by (simp add: cancel_order_set_tif)
  next
    case (Inr r)
    obtain b s1 where r: "r = (b, s1)" by (cases r)
    with Inr have C: "cancel_order s j = Inr (b, s1)" by simp
    from cancel_order_length [OF C] "3.prems"(2) have "oid < length (orders s1)" by simp
    from "3.IH" [OF C refl N this]
    have "run_commands cs (set_tif oid t s1) = map_sum id (set_tif oid t) (run_commands cs s1)" .
    with C J show ?thesis by (simp add: cancel_order_set_tif id_def)
  qed
qed


lemma callback_set_tif:
  assumes "Cancel oid \<notin> set (snd r)" and "oid < length (orders s)"
  shows "callback r (set_tif oid t s) = map_sum id (map_prod id (set_tif oid t)) (callback r s)"
  using run_commands_set_tif [OF assms, of t]
  by (cases "run_commands (snd r) s") (simp_all add: callback_def)

lemma callback_length:
  "callback r s = Inr (st', s') \<Longrightarrow> length (orders s) \<le> length (orders s')"
  by (auto simp: callback_def split: sum.splits dest: run_commands_length)

lemma notify_set_tif:
  assumes "tif_blind oid strat" and "oid < length (orders s)"
  shows "notify strat n st (set_tif oid t s) = map_sum id (map_prod id (set_tif oid t)) (notify strat n st s)"
proof (cases n)
  case None
  then show ?thesis by simp
next
  case (Some x)
  show ?thesis
  proof (cases x)
    case (OrderCancelled j)
    from assms(1) have "on_order_cancelled strat st (set_tif oid t s) j = on_order_cancelled strat st s j"
      "Cancel oid \<notin> set (snd (on_order_cancelled strat st s j))"
      by (simp_all add: tif_blind_def)
    with Some OrderCancelled assms(2) show ?thesis by (simp add: callback_set_tif)
  next
    case (OrderExecuted trade)
    from assms(1) have "on_order_executed strat st (set_tif oid t s) trade = on_order_executed strat st s trade"
      "Cancel oid \<notin> set (snd (on_order_executed strat st s trade))"
      by (simp_all add: tif_blind_def)
    with Some OrderExecuted assms(2) show ?thesis by (simp add: callback_set_tif)
  qed
qed

lemma notify_length:
  "notify strat n st s = Inr (st', s') \<Longrightarrow> length (orders s) \<le> length (orders s')"
proof (cases n)
  case None
  assume "notify strat n st s = Inr (st', s')"
  with None show ?thesis by simp
next
  case (Some x)
  assume "notify strat n st s = Inr (st', s')"
  with Some show ?thesis by (cases x) (auto dest: callback_length)
qed

lemma process_events_set_tif:
  assumes "tif_blind oid strat" and "oid < length (orders s)"
  shows "process_events fuel AlwaysFilled strat bar_ins i st (set_tif oid t s) =
         map_option (map_sum id (map_prod id (set_tif oid t)))
           (process_events fuel AlwaysFilled strat bar_ins i st s)"
  using assms(2)
proof (induction fuel arbitrary: i st s)
  case 0
  then show ?case by simp
next
  case (Suc fuel)
  show ?case
  proof (cases "i < length (events s)")
    case False
    then show ?thesis by (simp add: set_tif_def)
  next
    case True
    note E = process_event_set_tif [of bar_ins "events s ! i" oid t s]
    show ?thesis
    proof (cases "process_event AlwaysFilled bar_ins (events s ! i) s")
      case (Inl e)
      with True E show ?thesis by simp
    next
      case (Inr r)
      obtain s1 n where r: "r = (s1, n)" by (cases r)
      with Inr have P: "process_event AlwaysFilled bar_ins (events s ! i) s = Inr (s1, n)" by simp
      from process_event_length [OF P] Suc.prems have V: "oid < length (orders s1)" by simp
      note N = notify_set_tif [OF assms(1) V, of n st t]
      show ?thesis
      proof (cases "notify strat n st s1")
        case (Inl e)
        with True E P N show ?thesis by simp
      next
        case (Inr r2)
        obtain st2 s2 where r2: "r2 = (st2, s2)" by (cases r2)
        with Inr have Q: "notify strat n st s1 = Inr (st2, s2)" by simp
        from notify_length [OF Q] V have "oid < length (orders s2)" by simp
        from Suc.IH [OF this, of "i + 1" st2] True E P N Q show ?thesis by simp
      qed
    qed
  qed
qed


lemma process_events_length:
  assumes "process_events fuel match_algo strat bar_ins i st s = Some (Inr (st', s'))"
  shows "length (orders s) \<le> length (orders s')"
  using assms
proof (induction fuel arbitrary: i st s)
  case 0
  then show ?case by simp
next
  case (Suc fuel)
  show ?case
  proof (cases "i < length (events s)")
    case False
    with Suc.prems show ?thesis by auto
  next
    case True
    with Suc.prems obtain s1 n st2 s2 where
      E: "process_event match_algo bar_ins (events s ! i) s = Inr (s1, n)"
      and N: "notify strat n st s1 = Inr (st2, s2)"
      and R: "process_events fuel match_algo strat bar_ins (i + 1) st2 s2 = Some (Inr (st', s'))"
      by (auto split: sum.splits)
    from process_event_length [OF E] notify_length [OF N] Suc.IH [OF R] show ?thesis by simp
  qed
qed

lemma on_bar_set_tif:
  assumes B: "tif_blind oid strat" and V: "oid < length (orders s)"
  shows "on_bar fuel AlwaysFilled strat r st (set_tif oid t s) =
         map_option (map_sum id (map_prod id (set_tif oid t))) (on_bar fuel AlwaysFilled strat r st s)"
proof -
  let ?s1 = "s\<lparr>cur_tm := Some (bar_last_time (snd r)), cur_px := (cur_px s)(fst r \<mapsto> last_px (snd r))\<rparr>"
  have U: "(set_tif oid t s)\<lparr>cur_tm := Some (bar_last_time (snd r)),
              cur_px := (cur_px (set_tif oid t s))(fst r \<mapsto> last_px (snd r))\<rparr> = set_tif oid t ?s1"
    by (simp add: set_tif_def)
  from V have V1: "oid < length (orders ?s1)" by simp
  note P = process_events_set_tif [OF B V1, of fuel "fst r" 0 st t]
  show ?thesis
  proof (cases "process_events fuel AlwaysFilled strat (fst r) 0 st ?s1")
    case None
    with P U show ?thesis by (simp add: on_bar_def Let_def)
  next
    case (Some x)
    show ?thesis
    proof (cases x)
      case (Inl e)
      with Some P U show ?thesis by (simp add: on_bar_def Let_def)
    next
      case (Inr y)
      obtain st1 s2 where y: "y = (st1, s2)" by (cases y)
      with Some Inr have Q: "process_events fuel AlwaysFilled strat (fst r) 0 st ?s1 = Some (Inr (st1, s2))"
        by simp
      from process_events_length [OF Q] V have V2: "oid < length (orders s2)" by simp
      from B have D: "on_bar_data strat st1 (set_tif oid t s2) = on_bar_data strat st1 s2"
        "Cancel oid \<notin> set (snd (on_bar_data strat st1 s2 (fst r) (snd r)))"
        by (simp_all add: tif_blind_def)
      from callback_set_tif [OF D(2) V2, of t] Q P U D(1) show ?thesis
        by (simp add: on_bar_def Let_def)
    qed
  qed
qed

lemma on_bar_length:
  assumes "on_bar fuel match_algo strat r st s = Some (Inr (st', s'))"
  shows "length (orders s) \<le> length (orders s')"
proof -
  let ?s1 = "s\<lparr>cur_tm := Some (bar_last_time (snd r)), cur_px := (cur_px s)(fst r \<mapsto> last_px (snd r))\<rparr>"
  from assms obtain st1 s2 where
    P: "process_events fuel match_algo strat (fst r) 0 st ?s1 = Some (Inr (st1, s2))"
    and C: "callback (on_bar_data strat st1 s2 (fst r) (snd r)) s2 = Inr (st', s')"
    by (auto simp: on_bar_def Let_def split: option.splits sum.splits)
  from process_events_length [OF P] callback_length [OF C] show ?thesis by simp
qed

lemma replay_set_tif:
  assumes B: "tif_blind oid strat" and V: "oid < length (orders s)"
  shows "replay fuel AlwaysFilled strat bars st (set_tif oid t s) =
         map_option (map_sum id (map_prod id (set_tif oid t))) (replay fuel AlwaysFilled strat bars st s)"
  using V
proof (induction bars arbitrary: st s)
  case Nil
  then show ?case by simp
next
  case (Cons r bars)
  note O = on_bar_set_tif [OF B Cons.prems, of fuel r st t]
  show ?case
  proof (cases "on_bar fuel AlwaysFilled strat r st s")
    case None
    with O show ?thesis by simp
  next
    case (Some x)
    show ?thesis
    proof (cases x)
      case (Inl e)
      with Some O show ?thesis by simp
    next
      case (Inr y)
      obtain st1 s1 where y: "y = (st1, s1)" by (cases y)
      with Some Inr have Q: "on_bar fuel AlwaysFilled strat r st s = Some (Inr (st1, s1))" by simp
      from on_bar_length [OF Q] Cons.prems have "oid < length (orders s1)" by simp
      from Cons.IH [OF this, of st1] Q O show ?thesis by simp
    qed
  qed
qed

text \<open>
  C10. Under \<open>AlwaysFilled\<close> the resolution of an event does not read the time-in-force:
  from two states that differ in the time-in-force of one order only, it invokes the same
  callback with the same trade and leads to states that again differ in that field only,
  so the fill, the ledger and the trade log are the same. Two submissions that differ in
  the time-in-force only lead to such states, and so do two replays of the same bars from
  such states, with a strategy that does not read that field and does not cancel that
  order.
\<close>

theorem always_filled_ignores_tif:
  "process_event AlwaysFilled bar_ins ev (set_tif oid t s) =
     map_sum id (map_prod (set_tif oid t) id) (process_event AlwaysFilled bar_ins ev s) \<and>
   submit_order s i dir q0 t' lmt =
     map_prod id (set_tif (length (orders s)) t') (submit_order s i dir q0 t lmt) \<and>
   (tif_blind oid strat \<and> oid < length (orders s) \<longrightarrow>
      replay fuel AlwaysFilled strat bars st (set_tif oid t s) =
        map_option (map_sum id (map_prod id (set_tif oid t)))
          (replay fuel AlwaysFilled strat bars st s))"
  using process_event_set_tif [of bar_ins ev oid t s] submit_set_tif [of s i dir q0 t' lmt t]
    replay_set_tif [of oid strat s fuel bars st t]
  by simp

theorem always_filled_ignores_tif_witness:
  "tif_blind 0 (scripted []) \<and>
   map tif (orders one_buy) = [GTC] \<and> map tif (orders (set_tif 0 IOC one_buy)) = [IOC] \<and>
   replay 3 AlwaysFilled (scripted []) [(ins_A, demo_bar 1 11)] 0 (set_tif 0 IOC one_buy) =
     map_option (map_sum id (map_prod id (set_tif 0 IOC)))
       (replay 3 AlwaysFilled (scripted []) [(ins_A, demo_bar 1 11)] 0 one_buy) \<and>
   map_option (map px \<circ> trades)
     (engine_of (replay 3 AlwaysFilled (scripted []) [(ins_A, demo_bar 1 11)] 0 one_buy)) = Some [Some 11] \<and>
   map_option (map exec_qty \<circ> orders)
     (engine_of (replay 3 AlwaysFilled (scripted []) [(ins_A, demo_bar 1 11)] 0 (set_tif 0 IOC one_buy))) = Some [5]"
proof -
  have B: "tif_blind 0 (scripted [])" by (simp add: tif_blind_def scripted_def)
  have V: "0 < length (orders one_buy)" by code_simp
  have T: "map tif (orders one_buy) = [GTC]" "map tif (orders (set_tif 0 IOC one_buy)) = [IOC]"
    by code_simp+
  have P: "map_option (map px \<circ> trades)
     (engine_of (replay 3 AlwaysFilled (scripted []) [(ins_A, demo_bar 1 11)] 0 one_buy)) = Some [Some 11]"
    "map_option (map exec_qty \<circ> orders)
     (engine_of (replay 3 AlwaysFilled (scripted []) [(ins_A, demo_bar 1 11)] 0 (set_tif 0 IOC one_buy))) = Some [5]"
    by code_simp+
  from always_filled_ignores_tif [where oid = 0 and strat = "scripted []" and s = one_buy and fuel = 3
      and bars = "[(ins_A, demo_bar 1 11)]" and st = 0 and t = IOC] B V
  have "replay 3 AlwaysFilled (scripted []) [(ins_A, demo_bar 1 11)] 0 (set_tif 0 IOC one_buy) =
     map_option (map_sum id (map_prod id (set_tif 0 IOC)))
       (replay 3 AlwaysFilled (scripted []) [(ins_A, demo_bar 1 11)] 0 one_buy)"
    by blast
  with B T P show ?thesis by simp
qed

end
